theory Spec2Isabelle
  imports Complex_Main
begin

section \<open>The batched fetcher of async\_operations.js\<close>

text \<open>
  The development embeds \<^verbatim>\<open>parallelCalls\<close> (src/async\_operations.js, lines 129--180) and its
  inner helper \<^verbatim>\<open>fetchWithTimeout\<close> (lines 138--159).  Everything the function does not
  compute itself is a parameter of the model: what the network answers to each call of
  \<^verbatim>\<open>fetch\<close>, how long the answer takes, the error with which an aborted
  \<^verbatim>\<open>fetch\<close> rejects, how many arguments the engine takes in one call, and which of two
  rejections of the same instant the event loop handles first.  Time is a natural number of
  milliseconds on the clock of the event loop; the model is deterministic once these parameters
  are fixed, and the theorems quantify over all of them.
\<close>

subsection \<open>Values of the runtime\<close>

datatype json_value =
    JNull
  | JBool bool
  | JNumber int
  | JString string
  | JArray "json_value list"
  | JObject "(string \<times> json_value) list"

text \<open>A thrown value: a JavaScript error object, of which the program reads \<^verbatim>\<open>message\<close> only.\<close>

record js_error =
  name :: string
  message :: string

text \<open>\<^verbatim>\<open>new Error(message)\<close>.\<close>

definition Error :: "string \<Rightarrow> js_error" where
  "Error m = \<lparr>name = ''Error'', message = m\<rparr>"

text \<open>
  A response as the program reads it: \<^verbatim>\<open>response.ok\<close>, \<^verbatim>\<open>response.status\<close>, and the promise
  \<^verbatim>\<open>response.json()\<close>, which settles after \<open>body_ms\<close> with the decoded body (\<open>Inr\<close>) or rejects with
  the parse error (\<open>Inl\<close>).
\<close>

record response =
  ok :: bool
  status :: nat
  json :: "js_error + json_value"
  body_ms :: nat

text \<open>
  What one call of \<^verbatim>\<open>fetch\<close> would do if nobody aborted it: after \<open>latency\<close> milliseconds its
  promise resolves with a response or rejects (connection refused, DNS failure, ...).
\<close>

datatype settlement = Resolves response | Rejects js_error

record exchange =
  latency :: nat
  answer :: settlement

text \<open>
  The runtime: \<open>fetch rt p u k\<close> is the exchange that answers the \<open>k\<close>-th call of
  \<^verbatim>\<open>fetch(u, ...)\<close> issued for position \<open>p\<close> of the input list (two positions may hold the same URL
  and still be answered differently); \<open>abort_reason\<close> is the error with which a pending
  \<^verbatim>\<open>fetch\<close> rejects once \<^verbatim>\<open>controller.abort()\<close> has run; \<open>max_arguments\<close> is the largest
  number of arguments that the engine takes in one call (a spread of more elements throws a
  \<^verbatim>\<open>RangeError\<close>); \<open>processed_first p q\<close> tells, for two promises at positions \<open>p\<close> and \<open>q\<close>
  that reject at the same instant of the clock, whether the event loop handles the rejection at
  \<open>p\<close> before the one at \<open>q\<close>.
\<close>

record runtime =
  fetch :: "nat \<Rightarrow> string \<Rightarrow> nat \<Rightarrow> exchange"
  abort_reason :: js_error
  max_arguments :: nat
  processed_first :: "nat \<Rightarrow> nat \<Rightarrow> bool"

subsection \<open>Options and their defaults (lines 129--132)\<close>

text \<open>
  The second argument of \<^verbatim>\<open>parallelCalls\<close> is an object whose properties may be missing
  (\<open>None\<close>), or is missing altogether.  The parameter pattern
  \<^verbatim>\<open>{ timeout = 5000, retries = 3, batchSize = 5 } = {}\<close> binds the three local variables; it
  performs no check on the values.  Numbers are modelled as integers of any sign.
\<close>

record options =
  opt_timeout :: "int option"
  opt_retries :: "int option"
  opt_batchSize :: "int option"

record config =
  timeout :: int
  retries :: int
  batchSize :: int

definition no_options :: options where
  "no_options = \<lparr>opt_timeout = None, opt_retries = None, opt_batchSize = None\<rparr>"

definition or_default :: "int option \<Rightarrow> int \<Rightarrow> int" where
  "or_default v d = (case v of None \<Rightarrow> d | Some x \<Rightarrow> x)"

definition destructure :: "options option \<Rightarrow> config" where
  "destructure arg =
     (let opts = (case arg of None \<Rightarrow> no_options | Some given \<Rightarrow> given)
      in \<lparr>timeout = or_default (opt_timeout opts) 5000,
          retries = or_default (opt_retries opts) 3,
          batchSize = or_default (opt_batchSize opts) 5\<rparr>)"

subsection \<open>One attempt: the \<^verbatim>\<open>try\<close> block (lines 139--148)\<close>

text \<open>
  Decimal rendering of a status code inside the template literal of line 147.
\<close>

fun show_nat :: "nat \<Rightarrow> string" where
  "show_nat n =
     (if n < 10 then [''0123456789'' ! n]
      else show_nat (n div 10) @ [''0123456789'' ! (n mod 10)])"

declare show_nat.simps [simp del]

text \<open>
  Node's \<^verbatim>\<open>setTimeout\<close> (the README runs the file with \<^verbatim>\<open>node\<close>): a delay below 1 or above
  \<open>2\<^sup>3\<^sup>1 - 1\<close> is set to 1 millisecond.
\<close>

definition timer_delay :: "int \<Rightarrow> nat" where
  "timer_delay ms = (if ms < 1 \<or> 2147483647 < ms then 1 else nat ms)"

text \<open>
  What happens to the timer of one attempt, in order: it fires (its callback is
  \<^verbatim>\<open>controller.abort()\<close>), or \<^verbatim>\<open>clearTimeout\<close> is called on it.
\<close>

datatype timer_op = Fires | ClearTimeout

text \<open>
  How control leaves the \<^verbatim>\<open>try\<close> block: by \<^verbatim>\<open>return response.json()\<close>, handing over a promise
  that is not awaited inside the block and settles later with the given value, or by an exception
  raised inside the block, which the \<^verbatim>\<open>catch\<close> clause receives.
\<close>

datatype outcome = Returns "js_error + json_value" | Throws js_error

record attempt =
  slot :: nat
  url :: string
  number :: nat
  started :: nat
  settled :: nat
  timer_ops :: "timer_op list"
  outcome :: outcome

text \<open>
  Lines 139--148 for attempt \<open>k\<close> on position \<open>p\<close>, started at \<open>now\<close>.  The timer is armed for
  \<open>timer_delay (timeout cfg)\<close>.  If the fetch settles first, a response reaches line 144
  (\<^verbatim>\<open>clearTimeout\<close>), then line 146 throws on a status that is not ok and line 148 returns the
  body promise otherwise; a rejection goes to \<^verbatim>\<open>catch\<close> directly.  Otherwise the timer fires,
  aborts the fetch, and the fetch rejects with the runtime's abort error.  \<open>settled\<close> is the
  instant at which the HTTP operation of the attempt is over (for an ok response: when the body
  has been read).
\<close>

definition try_block :: "config \<Rightarrow> runtime \<Rightarrow> nat \<Rightarrow> string \<Rightarrow> nat \<Rightarrow> nat \<Rightarrow> attempt" where
  "try_block cfg rt p u k now =
     (let x = fetch rt p u k; d = timer_delay (timeout cfg) in
      if latency x < d then
        (case answer x of
           Resolves r \<Rightarrow>
             if \<not> ok r then
               \<lparr>slot = p, url = u, number = k, started = now, settled = now + latency x,
                timer_ops = [ClearTimeout],
                outcome = Throws (Error (''HTTP error! status: '' @ show_nat (status r)))\<rparr>
             else
               \<lparr>slot = p, url = u, number = k, started = now,
                settled = now + latency x + body_ms r,
                timer_ops = [ClearTimeout],
                outcome = Returns (json r)\<rparr>
         | Rejects e \<Rightarrow>
             \<lparr>slot = p, url = u, number = k, started = now, settled = now + latency x,
              timer_ops = [], outcome = Throws e\<rparr>)
      else
        \<lparr>slot = p, url = u, number = k, started = now, settled = now + d,
         timer_ops = [Fires], outcome = Throws (abort_reason rt)\<rparr>)"

text \<open>The \<^verbatim>\<open>finally\<close> clause (line 157).\<close>

definition finally_block :: "attempt \<Rightarrow> attempt" where
  "finally_block a = a\<lparr>timer_ops := timer_ops a @ [ClearTimeout]\<rparr>"

subsection \<open>The retry chain: \<^verbatim>\<open>fetchWithTimeout\<close> (lines 138--159)\<close>

text \<open>
  The promise that \<^verbatim>\<open>fetchWithTimeout(url)\<close> returns: what it settles with, when, and the
  attempts made on the way, oldest first.
\<close>

record chain =
  result :: "js_error + json_value"
  settle :: nat
  attempts :: "attempt list"

text \<open>
  A value returned from the \<^verbatim>\<open>try\<close> block settles the chain, also when the returned promise
  rejects: the \<^verbatim>\<open>catch\<close> clause only sees exceptions raised inside the block.  An exception is
  retried while \<^verbatim>\<open>attempt < retries\<close> and rethrown otherwise.
\<close>

function fetchWithTimeout :: "config \<Rightarrow> runtime \<Rightarrow> nat \<Rightarrow> string \<Rightarrow> nat \<Rightarrow> nat \<Rightarrow> chain" where
  "fetchWithTimeout cfg rt p u attempt now =
     (let a = try_block cfg rt p u attempt now in
      case outcome a of
        Returns promise \<Rightarrow>
          \<lparr>result = promise, settle = settled a, attempts = [finally_block a]\<rparr>
      | Throws error \<Rightarrow>
          if int attempt < retries cfg then
            (let retry = fetchWithTimeout cfg rt p u (attempt + 1) (settled a)
             in retry\<lparr>attempts := finally_block a # attempts retry\<rparr>)
          else
            \<lparr>result = Inl error, settle = settled a, attempts = [finally_block a]\<rparr>)"
  by pat_completeness auto
termination
  by (relation "measure (\<lambda>(cfg, rt, p, u, attempt, now). nat (retries cfg - int attempt))") auto

declare fetchWithTimeout.simps [simp del]

subsection \<open>\<^verbatim>\<open>Promise.all\<close> and \<^verbatim>\<open>Array.prototype.slice\<close>\<close>

text \<open>
  \<^verbatim>\<open>Promise.all\<close> rejects with the first rejection in time and otherwise resolves, once the
  last promise has, with the values in the order of the promises.  Which of two rejections at
  the same instant comes first is for the event loop to say (\<open>before\<close>, on the positions of the
  two promises; \<open>p\<close> is the position of the first promise of the list).
\<close>

fun first_rejection ::
  "(nat \<Rightarrow> nat \<Rightarrow> bool) \<Rightarrow> nat \<Rightarrow> chain list \<Rightarrow> (nat \<times> nat \<times> js_error) option" where
  "first_rejection before p [] = None"
| "first_rejection before p (c # cs) =
     (case result c of
        Inr v \<Rightarrow> first_rejection before (p + 1) cs
      | Inl e \<Rightarrow>
          (case first_rejection before (p + 1) cs of
             None \<Rightarrow> Some (settle c, p, e)
           | Some (t, q, e') \<Rightarrow>
               if settle c < t \<or> (settle c = t \<and> before p q) then Some (settle c, p, e)
               else Some (t, q, e')))"

fun fulfilled :: "chain list \<Rightarrow> json_value list" where
  "fulfilled [] = []"
| "fulfilled (c # cs) = (case result c of Inr v \<Rightarrow> v # fulfilled cs | Inl e \<Rightarrow> fulfilled cs)"

definition Promise_all ::
  "runtime \<Rightarrow> nat \<Rightarrow> nat \<Rightarrow> chain list \<Rightarrow> nat \<times> (js_error + json_value list)" where
  "Promise_all rt p now cs =
     (case first_rejection (processed_first rt) p cs of
        Some (t, q, e) \<Rightarrow> (t, Inl e)
      | None \<Rightarrow> (fold max (map settle cs) now, Inr (fulfilled cs)))"

text \<open>\<^verbatim>\<open>xs.slice(start, end)\<close>: a negative index counts from the end, every index is clamped.\<close>

definition slice :: "'a list \<Rightarrow> int \<Rightarrow> int \<Rightarrow> 'a list" where
  "slice xs start end' =
     (let n = int (length xs);
          k = (if start < 0 then max (n + start) 0 else min start n);
          final = (if end' < 0 then max (n + end') 0 else min end' n)
      in take (nat (final - k)) (drop (nat k) xs))"

subsection \<open>The batch loop and \<^verbatim>\<open>parallelCalls\<close> (lines 161--179)\<close>

text \<open>
  A run: what the returned promise settles with (\<open>Inl\<close>: the error it rejects with) and when;
  the batches that were started, in the order of their start; every attempt that the run
  issues, those of a batch in the order of its URLs.
\<close>

record run =
  returned :: "js_error + json_value list"
  finished :: nat
  batches :: "string list list"
  calls :: "attempt list"

text \<open>
  Line 165: \<^verbatim>\<open>Array(Math.ceil(urls.length / batchSize))\<close>.  \<open>None\<close> is the \<^verbatim>\<open>RangeError\<close> of
  \<^verbatim>\<open>Array\<close> on a length that is negative, infinite (division of a positive length by 0) or
  \<^verbatim>\<open>NaN\<close> (\<open>0 / 0\<close>).  A list length is below \<open>2\<^sup>3\<^sup>2\<close>, where the quotient of the two floats rounds to
  no other integer than the exact ceiling.
\<close>

definition array_length :: "nat \<Rightarrow> int \<Rightarrow> nat option" where
  "array_length n b =
     (if b = 0 then None
      else (let c = - ((- int n) div b) in if c < 0 then None else Some (nat c)))"

text \<open>Line 167: the slice of batch \<open>i\<close>.\<close>

definition currentBatch :: "config \<Rightarrow> string list \<Rightarrow> nat \<Rightarrow> string list" where
  "currentBatch cfg urls i = slice urls (int i * batchSize cfg) ((int i + 1) * batchSize cfg)"

text \<open>
  Line 169: \<^verbatim>\<open>currentBatch.map((url) => fetchWithTimeout(url))\<close>.  Every chain of the batch starts
  at \<open>now\<close>; the \<open>k\<close>-th URL of the slice stands at position \<open>i * batchSize + k\<close> of the input.
\<close>

definition batch_promises :: "config \<Rightarrow> runtime \<Rightarrow> string list \<Rightarrow> nat \<Rightarrow> nat \<Rightarrow> chain list" where
  "batch_promises cfg rt urls i now =
     map (\<lambda>(k, u). fetchWithTimeout cfg rt (nat (int i * batchSize cfg) + k) u 1 now)
       (enumerate 0 (currentBatch cfg urls i))"

text \<open>
  Line 171, \<^verbatim>\<open>results.push(...batchResults)\<close>, passes every element of \<open>batchResults\<close> as an
  argument of its own; with more elements than the engine takes in one call it throws this
  error (V8's message).
\<close>

definition stack_overflow :: js_error where
  "stack_overflow = \<lparr>name = ''RangeError'', message = ''Maximum call stack size exceeded''\<rparr>"

text \<open>
  The \<^verbatim>\<open>for\<close> loop over the indices \<open>is\<close> that are left (lines 164--172), at time \<open>now\<close> with
  the accumulator \<open>results\<close>.  The loop goes on when \<^verbatim>\<open>Promise.all\<close> resolves and line 171
  has appended the results; an \<^verbatim>\<open>await\<close> or a \<^verbatim>\<open>push\<close> that throws ends it.  The chains of a
  batch that has been started make all their attempts, whatever \<^verbatim>\<open>Promise.all\<close> has settled
  with in the meantime.
\<close>

fun run_batches :: "config \<Rightarrow> runtime \<Rightarrow> string list \<Rightarrow> nat list \<Rightarrow> nat \<Rightarrow> json_value list \<Rightarrow> run" where
  "run_batches cfg rt urls [] now results =
     \<lparr>returned = Inr results, finished = now, batches = [], calls = []\<rparr>"
| "run_batches cfg rt urls (i # is) now results =
     (let promises = batch_promises cfg rt urls i now in
      case Promise_all rt (nat (int i * batchSize cfg)) now promises of
        (t, Inl e) \<Rightarrow>
          \<lparr>returned = Inl e, finished = t, batches = [currentBatch cfg urls i],
           calls = concat (map attempts promises)\<rparr>
      | (t, Inr batchResults) \<Rightarrow>
          if max_arguments rt < length batchResults then
            \<lparr>returned = Inl stack_overflow, finished = t, batches = [currentBatch cfg urls i],
             calls = concat (map attempts promises)\<rparr>
          else
            (let rest = run_batches cfg rt urls is t (results @ batchResults)
             in rest\<lparr>batches := currentBatch cfg urls i # batches rest,
                     calls := concat (map attempts promises) @ calls rest\<rparr>))"

text \<open>
  \<^verbatim>\<open>parallelCalls(urls, options)\<close>.  Every exception of the \<^verbatim>\<open>try\<close> block of line 161 is
  replaced by \<^verbatim>\<open>new Error(message)\<close> (lines 176--178).
\<close>

definition parallelCalls :: "runtime \<Rightarrow> string list \<Rightarrow> options option \<Rightarrow> run" where
  "parallelCalls rt urls arg =
     (let cfg = destructure arg in
      case array_length (length urls) (batchSize cfg) of
        None \<Rightarrow>
          \<lparr>returned = Inl (Error ''Invalid array length''), finished = 0, batches = [], calls = []\<rparr>
      | Some count \<Rightarrow>
          (let r = run_batches cfg rt urls [0..<count] 0 [] in
           case returned r of
             Inl e \<Rightarrow> r\<lparr>returned := Inl (Error (message e))\<rparr>
           | Inr results \<Rightarrow> r))"

subsection \<open>Notions used in the statements\<close>

text \<open>
  What the retry chain for position \<open>p\<close> settles with.  The settlement does not depend on the
  instant at which the chain starts (lemma \<open>result_start\<close> below).
\<close>

definition fetched :: "config \<Rightarrow> runtime \<Rightarrow> nat \<Rightarrow> string \<Rightarrow> js_error + json_value" where
  "fetched cfg rt p u = result (fetchWithTimeout cfg rt p u 1 0)"

text \<open>
  The network's side of one attempt, read off the exchange alone.  An exchange \<open>delivers\<close> a
  value when an ok response arrives before the timer fires and its body decodes to the value;
  it is \<open>retryable\<close> when the timer fires first, the fetch rejects or the status is not ok: the
  failures that are raised inside the \<^verbatim>\<open>try\<close> block.  \<open>succeeds_on cfg rt p u m v\<close>: the \<open>m\<close>-th
  request for position \<open>p\<close> is within the retry budget (it is the first one, or \<open>m \<le> retries\<close>) and
  delivers \<open>v\<close>, every earlier one being retryable.
\<close>

definition delivers :: "config \<Rightarrow> exchange \<Rightarrow> json_value \<Rightarrow> bool" where
  "delivers cfg x v \<longleftrightarrow>
     latency x < timer_delay (timeout cfg) \<and>
     (case answer x of Resolves r \<Rightarrow> ok r \<and> json r = Inr v | Rejects e \<Rightarrow> False)"



text \<open>The number of attempts of a log whose HTTP operation is under way at instant \<open>t\<close>.\<close>

definition outstanding :: "attempt list \<Rightarrow> nat \<Rightarrow> nat" where
  "outstanding as t = length (filter (\<lambda>a. started a \<le> t \<and> t < settled a) as)"

text \<open>
  A timer is armed by \<^verbatim>\<open>setTimeout\<close> and leaves that state once: when it fires or when
  \<^verbatim>\<open>clearTimeout\<close> reaches it first.  \<^verbatim>\<open>clearTimeout\<close> on a timer that has fired or has been
  cleared does nothing.
\<close>

datatype timer_state = Armed | Fired | Cleared

fun timer_step :: "timer_state \<Rightarrow> timer_op \<Rightarrow> timer_state" where
  "timer_step Armed Fires = Fired"
| "timer_step Armed ClearTimeout = Cleared"
| "timer_step s _ = s"

definition timer_after :: "timer_op list \<Rightarrow> timer_state" where
  "timer_after ops = foldl timer_step Armed ops"

text \<open>How often the operations \<open>ops\<close> take a timer in state \<open>s\<close> to another state.\<close>

fun releases :: "timer_state \<Rightarrow> timer_op list \<Rightarrow> nat" where
  "releases s [] = 0"
| "releases s (x # ops) = (if timer_step s x = s then 0 else 1) + releases (timer_step s x) ops"

subsection \<open>Concrete runs\<close>

text \<open>
  Exchanges and runtimes on which the theorems below are instantiated.  \<open>responds\<close> builds a
  response whose \<^verbatim>\<open>ok\<close> flag follows its status as the Fetch standard has it (200--299);
  \<open>node_abort\<close> is the abort error of Node's \<^verbatim>\<open>fetch\<close>.
\<close>

definition node_abort :: js_error where
  "node_abort = \<lparr>name = ''AbortError'', message = ''This operation was aborted''\<rparr>"

definition fetch_failed :: js_error where
  "fetch_failed = \<lparr>name = ''TypeError'', message = ''fetch failed''\<rparr>"

definition bad_json :: js_error where
  "bad_json = \<lparr>name = ''SyntaxError'', message = ''Unexpected end of JSON input''\<rparr>"

definition responds :: "nat \<Rightarrow> nat \<Rightarrow> js_error + json_value \<Rightarrow> nat \<Rightarrow> exchange" where
  "responds ms code body read_ms =
     \<lparr>latency = ms,
      answer = Resolves \<lparr>ok = (200 \<le> code \<and> code \<le> 299), status = code, json = body,
                         body_ms = read_ms\<rparr>\<rparr>"

definition rejects :: "nat \<Rightarrow> js_error \<Rightarrow> exchange" where
  "rejects ms e = \<lparr>latency = ms, answer = Rejects e\<rparr>"

definition with_batchSize :: "int \<Rightarrow> options option" where
  "with_batchSize b = Some \<lparr>opt_timeout = None, opt_retries = None, opt_batchSize = Some b\<rparr>"

definition with_retries :: "int \<Rightarrow> options option" where
  "with_retries r = Some \<lparr>opt_timeout = None, opt_retries = Some r, opt_batchSize = None\<rparr>"

definition with_timeout :: "int \<Rightarrow> options option" where
  "with_timeout ms = Some \<lparr>opt_timeout = Some ms, opt_retries = None, opt_batchSize = None\<rparr>"

definition with_retries_batchSize :: "int \<Rightarrow> int \<Rightarrow> options option" where
  "with_retries_batchSize r b =
     Some \<lparr>opt_timeout = None, opt_retries = Some r, opt_batchSize = Some b\<rparr>"

text \<open>
  A runtime with the given network: Node's abort error, room for 120000 arguments in a call (the
  order of magnitude of Node's default stack), the smaller position first among simultaneous
  rejections.
\<close>

definition node :: "(nat \<Rightarrow> string \<Rightarrow> nat \<Rightarrow> exchange) \<Rightarrow> runtime" where
  "node network =
     \<lparr>fetch = network, abort_reason = node_abort, max_arguments = 120000,
      processed_first = (\<lambda>p q. p < q)\<rparr>"

text \<open>Every request is answered at once with status 200 and the body \<open>res u\<close>.\<close>

definition rt_instant :: "(string \<Rightarrow> json_value) \<Rightarrow> runtime" where
  "rt_instant res = node (\<lambda>p u k. responds 0 200 (Inr (res u)) 0)"

text \<open>
  Position 1 answers 503 to its first request and refuses the second connection; every other
  request succeeds, the later the position the slower.
\<close>

definition rt_flaky :: runtime where
  "rt_flaky =
     node (\<lambda>p u k.
       if p = 1 \<and> k = 1 then responds 20 503 (Inr JNull) 0
       else if p = 1 \<and> k = 2 then rejects 30 fetch_failed
       else responds (10 * (p + 1)) 200 (Inr (JString u)) 5)"

text \<open>Position 1 is down; the other positions answer.\<close>

definition rt_one_down :: runtime where
  "rt_one_down =
     node (\<lambda>p u k.
       if p = 1 then rejects 5 fetch_failed else responds 10 200 (Inr (JString u)) 0)"

text \<open>Every connection is refused.\<close>

definition rt_down :: runtime where
  "rt_down = node (\<lambda>p u k. rejects 5 fetch_failed)"

text \<open>Every response has status 200 and a body that is not JSON.\<close>

definition rt_garbled :: runtime where
  "rt_garbled = node (\<lambda>p u k. responds 10 200 (Inl bad_json) 5)"

text \<open>Only the first response has a body that is not JSON.\<close>

definition rt_garbled_once :: runtime where
  "rt_garbled_once =
     node (\<lambda>p u k.
       if k = 1 then responds 10 200 (Inl bad_json) 5
       else responds 10 200 (Inr (JString u)) 5)"

text \<open>No response arrives within nine seconds.\<close>

definition rt_stalled :: runtime where
  "rt_stalled = node (\<lambda>p u k. responds 9000 200 (Inr JNull) 0)"

text \<open>
  The first response of position 1 has a body that is not JSON; every other request is answered
  with status 200 and a body that decodes.
\<close>

definition rt_one_garbled_once :: runtime where
  "rt_one_garbled_once =
     node (\<lambda>p u k.
       if p = 1 \<and> k = 1 then responds 10 200 (Inl bad_json) 5
       else responds 10 200 (Inr (JString u)) 5)"

text \<open>The response arrives after 10 ms; reading its body takes another 300 ms.\<close>

definition rt_slow_body :: runtime where
  "rt_slow_body = node (\<lambda>p u k. responds 10 200 (Inr (JString u)) 300)"

section \<open>Lemmas\<close>

subsection \<open>One attempt and the retry chain\<close>

lemma try_block_fields [simp]:
  "slot (try_block cfg rt p u k now) = p"
  "url (try_block cfg rt p u k now) = u"
  "number (try_block cfg rt p u k now) = k"
  "started (try_block cfg rt p u k now) = now"
  by (simp_all add: try_block_def Let_def split: settlement.splits)

lemma try_block_settled: "now \<le> settled (try_block cfg rt p u k now)"
  by (simp add: try_block_def Let_def split: settlement.splits)

lemma try_block_shift:
  "outcome (try_block cfg rt p u k now) = outcome (try_block cfg rt p u k 0)"
  "timer_ops (try_block cfg rt p u k now) = timer_ops (try_block cfg rt p u k 0)"
  "settled (try_block cfg rt p u k now) = now + settled (try_block cfg rt p u k 0)"
  by (simp_all add: try_block_def Let_def split: settlement.splits)

lemma finally_block_fields [simp]:
  "slot (finally_block a) = slot a"
  "url (finally_block a) = url a"
  "number (finally_block a) = number a"
  "started (finally_block a) = started a"
  "settled (finally_block a) = settled a"
  "outcome (finally_block a) = outcome a"
  "timer_ops (finally_block a) = timer_ops a @ [ClearTimeout]"
  by (simp_all add: finally_block_def)


lemma attempt_timer_ops:
  assumes "a = finally_block (try_block cfg rt p u k now)"
  shows "(if latency (fetch rt p u k) < timer_delay (timeout cfg)
          then (case answer (fetch rt p u k) of
                  Resolves r \<Rightarrow> timer_ops a = [ClearTimeout, ClearTimeout]
                | Rejects e \<Rightarrow> timer_ops a = [ClearTimeout] \<and> outcome a = Throws e)
          else timer_ops a = [Fires, ClearTimeout] \<and> outcome a = Throws (abort_reason rt) \<and>
               settled a = now + timer_delay (timeout cfg))"
  using assms by (simp add: try_block_def Let_def split: settlement.splits)

lemma attempt_timer_released:
  assumes "a = finally_block (try_block cfg rt p u k now)"
  shows "timer_after (timer_ops a) \<noteq> Armed \<and> releases Armed (timer_ops a) = 1"
  using assms by (simp add: try_block_def Let_def timer_after_def split: settlement.splits)

lemma chain_Returns:
  "outcome (try_block cfg rt p u k now) = Returns v \<Longrightarrow>
   fetchWithTimeout cfg rt p u k now =
     \<lparr>result = v, settle = settled (try_block cfg rt p u k now),
      attempts = [finally_block (try_block cfg rt p u k now)]\<rparr>"
  by (simp add: fetchWithTimeout.simps[of cfg rt p u k now] Let_def)

lemma chain_Retry:
  "outcome (try_block cfg rt p u k now) = Throws e \<Longrightarrow> int k < retries cfg \<Longrightarrow>
   fetchWithTimeout cfg rt p u k now =
     (fetchWithTimeout cfg rt p u (k + 1) (settled (try_block cfg rt p u k now)))
       \<lparr>attempts := finally_block (try_block cfg rt p u k now) #
          attempts (fetchWithTimeout cfg rt p u (k + 1) (settled (try_block cfg rt p u k now)))\<rparr>"
  by (simp add: fetchWithTimeout.simps[of cfg rt p u k now] Let_def)

lemma chain_Rethrow:
  "outcome (try_block cfg rt p u k now) = Throws e \<Longrightarrow> \<not> int k < retries cfg \<Longrightarrow>
   fetchWithTimeout cfg rt p u k now =
     \<lparr>result = Inl e, settle = settled (try_block cfg rt p u k now),
      attempts = [finally_block (try_block cfg rt p u k now)]\<rparr>"
  by (simp add: fetchWithTimeout.simps[of cfg rt p u k now] Let_def)

lemma chain_induct [case_names Returns Retry Rethrow]:
  assumes ret: "\<And>k now v. outcome (try_block cfg rt p u k now) = Returns v \<Longrightarrow> P k now"
    and retry: "\<And>k now e. outcome (try_block cfg rt p u k now) = Throws e \<Longrightarrow>
                 int k < retries cfg \<Longrightarrow> (\<And>t. P (k + 1) t) \<Longrightarrow> P k now"
    and rethrow: "\<And>k now e. outcome (try_block cfg rt p u k now) = Throws e \<Longrightarrow>
                 \<not> int k < retries cfg \<Longrightarrow> P k now"
  shows "P k now"
proof -
  have "\<And>k now. n = nat (retries cfg - int k) \<Longrightarrow> P k now" for n
  proof (induction n rule: less_induct)
    case (less n)
    show ?case
    proof (cases "outcome (try_block cfg rt p u k now)")
      case (Returns v)
      then show ?thesis by (rule ret)
    next
      case (Throws e)
      show ?thesis
      proof (cases "int k < retries cfg")
        case True
        have "P (k + 1) t" for t
          by (rule less(1)[of "nat (retries cfg - int (k + 1))"]) (use True less(2) in simp_all)
        with Throws True show ?thesis by (rule retry)
      next
        case False
        with Throws show ?thesis by (rule rethrow)
      qed
    qed
  qed
  then show ?thesis by blast
qed

lemma result_start:
  "result (fetchWithTimeout cfg rt p u k now) = result (fetchWithTimeout cfg rt p u k t)"
proof (induction k now arbitrary: t rule: chain_induct[of cfg rt p u])
  case (Returns k now v)
  moreover from Returns have "outcome (try_block cfg rt p u k t) = Returns v"
    using try_block_shift(1)[of cfg rt p u k now] try_block_shift(1)[of cfg rt p u k t] by simp
  ultimately show ?case by (simp add: chain_Returns)
next
  case (Retry k now e)
  moreover from Retry(1) have "outcome (try_block cfg rt p u k t) = Throws e"
    using try_block_shift(1)[of cfg rt p u k now] try_block_shift(1)[of cfg rt p u k t] by simp
  ultimately show ?case by (simp add: chain_Retry)
next
  case (Rethrow k now e)
  moreover from Rethrow(1) have "outcome (try_block cfg rt p u k t) = Throws e"
    using try_block_shift(1)[of cfg rt p u k now] try_block_shift(1)[of cfg rt p u k t] by simp
  ultimately show ?case by (simp add: chain_Rethrow)
qed

lemma chain_settle_ge: "now \<le> settle (fetchWithTimeout cfg rt p u k now)"
proof (induction k now rule: chain_induct[of cfg rt p u])
  case (Returns k now v)
  then show ?case by (simp add: chain_Returns try_block_settled)
next
  case (Retry k now e)
  have "now \<le> settled (try_block cfg rt p u k now)" by (rule try_block_settled)
  also have "\<dots> \<le> settle (fetchWithTimeout cfg rt p u (k + 1) (settled (try_block cfg rt p u k now)))"
    by (rule Retry(3))
  finally show ?case using Retry(1,2) by (simp add: chain_Retry)
next
  case (Rethrow k now e)
  then show ?case by (simp add: chain_Rethrow try_block_settled)
qed

lemma chain_attempts:
  "a \<in> set (attempts (fetchWithTimeout cfg rt p u k now)) \<Longrightarrow>
     a = finally_block (try_block cfg rt p u (number a) (started a)) \<and> k \<le> number a \<and>
     now \<le> started a \<and> settled a \<le> settle (fetchWithTimeout cfg rt p u k now)"
proof (induction k now rule: chain_induct[of cfg rt p u])
  case (Returns k now v)
  then show ?case by (simp add: chain_Returns)
next
  case (Retry k now e)
  let ?h = "try_block cfg rt p u k now"
  let ?rest = "fetchWithTimeout cfg rt p u (k + 1) (settled ?h)"
  from Retry(1,2,4) have mem: "a = finally_block ?h \<or> a \<in> set (attempts ?rest)"
    by (simp add: chain_Retry)
  have st: "settle (fetchWithTimeout cfg rt p u k now) = settle ?rest"
    using Retry(1,2) by (simp add: chain_Retry)
  from mem show ?case
  proof
    assume "a = finally_block ?h"
    then show ?thesis using chain_settle_ge[of "settled ?h" cfg rt p u "k + 1"] st by simp
  next
    assume "a \<in> set (attempts ?rest)"
    from Retry(3)[OF this] show ?thesis
      using try_block_settled[of now cfg rt p u k] st by simp
  qed
next
  case (Rethrow k now e)
  then show ?case by (simp add: chain_Rethrow)
qed

lemma chain_sequential:
  "a \<in> set (attempts (fetchWithTimeout cfg rt p u k now)) \<Longrightarrow>
   a' \<in> set (attempts (fetchWithTimeout cfg rt p u k now)) \<Longrightarrow>
   number a < number a' \<Longrightarrow> settled a \<le> started a'"
proof (induction k now rule: chain_induct[of cfg rt p u])
  case (Returns k now v)
  then show ?case by (simp add: chain_Returns)
next
  case (Retry k now e)
  let ?h = "try_block cfg rt p u k now"
  let ?rest = "fetchWithTimeout cfg rt p u (k + 1) (settled ?h)"
  have eq: "attempts (fetchWithTimeout cfg rt p u k now) = finally_block ?h # attempts ?rest"
    using Retry(1,2) by (simp add: chain_Retry)
  from Retry(4) eq have A: "a = finally_block ?h \<or> a \<in> set (attempts ?rest)" by simp
  from Retry(5) eq have B: "a' = finally_block ?h \<or> a' \<in> set (attempts ?rest)" by simp
  show ?case
  proof (cases "a \<in> set (attempts ?rest)")
    case inA: True
    show ?thesis
    proof (cases "a' \<in> set (attempts ?rest)")
      case True
      with inA Retry(3,6) show ?thesis by blast
    next
      case False
      with B have "number a' = k" by simp
      moreover from chain_attempts[OF inA] have "k + 1 \<le> number a" by simp
      ultimately show ?thesis using Retry(6) by simp
    qed
  next
    case False
    with A have a: "a = finally_block ?h" by simp
    with Retry(6) B have "a' \<in> set (attempts ?rest)" by auto
    from chain_attempts[OF this] a show ?thesis by simp
  qed
next
  case (Rethrow k now e)
  then show ?case by (simp add: chain_Rethrow)
qed

lemma chain_retries_thrown:
  "a \<in> set (attempts (fetchWithTimeout cfg rt p u k now)) \<Longrightarrow> outcome a = Throws e \<Longrightarrow>
   int (number a) < retries cfg \<Longrightarrow>
   \<exists>a' \<in> set (attempts (fetchWithTimeout cfg rt p u k now)).
      number a' = number a + 1 \<and> started a' = settled a"
proof (induction k now rule: chain_induct[of cfg rt p u])
  case (Returns k now v)
  then show ?case by (auto simp add: chain_Returns)
next
  case (Retry k now e')
  let ?h = "try_block cfg rt p u k now"
  let ?rest = "fetchWithTimeout cfg rt p u (k + 1) (settled ?h)"
  have eq: "attempts (fetchWithTimeout cfg rt p u k now) = finally_block ?h # attempts ?rest"
    using Retry(1,2) by (simp add: chain_Retry)
  show ?case
  proof (cases "a = finally_block ?h")
    case True
    have "\<exists>a' \<in> set (attempts ?rest). number a' = k + 1 \<and> started a' = settled ?h"
    proof (cases "outcome (try_block cfg rt p u (k + 1) (settled ?h))")
      case (Returns v)
      then show ?thesis by (simp add: chain_Returns)
    next
      case (Throws e'')
      then show ?thesis
        by (cases "int (k + 1) < retries cfg") (simp_all add: chain_Retry chain_Rethrow)
    qed
    with True show ?thesis by (simp add: eq)
  next
    case False
    with Retry(4) eq have "a \<in> set (attempts ?rest)" by simp
    from Retry(3)[OF this Retry(5,6)] show ?thesis by (auto simp add: eq)
  qed
next
  case (Rethrow k now e')
  then show ?case by (auto simp add: chain_Rethrow)
qed


text \<open>
  How many attempts a chain makes.  For failures that reach the \<^verbatim>\<open>catch\<close> clause the counts
  are those of a plain retry loop: \<open>retries\<close> attempts when every attempt throws, \<open>m\<close> attempts
  when the \<open>m\<close>-th is the first that returns.
\<close>

lemma chain_attempts_bounds:
  "1 \<le> length (attempts (fetchWithTimeout cfg rt p u k now)) \<and>
   int (length (attempts (fetchWithTimeout cfg rt p u k now))) \<le> max 1 (retries cfg - int k + 1)"
proof (induction k now rule: chain_induct[of cfg rt p u])
  case (Returns k now v)
  then show ?case by (simp add: chain_Returns)
next
  case (Retry k now e)
  then show ?case using Retry(3)[of "settled (try_block cfg rt p u k now)"]
    by (simp add: chain_Retry)
next
  case (Rethrow k now e)
  then show ?case by (simp add: chain_Rethrow)
qed

lemma chain_exhausts:
  assumes "\<forall>j. k \<le> j \<and> int j \<le> retries cfg \<longrightarrow> (\<exists>e. outcome (try_block cfg rt p u j 0) = Throws e)"
    and "int k \<le> retries cfg"
  shows "int (length (attempts (fetchWithTimeout cfg rt p u k now))) = retries cfg - int k + 1 \<and>
         isl (result (fetchWithTimeout cfg rt p u k now))"
  using assms
proof (induction k now rule: chain_induct[of cfg rt p u])
  case (Returns k now v)
  then show ?case using try_block_shift(1)[of cfg rt p u k now] by auto
next
  case (Retry k now e)
  then show ?case
    using Retry(3)[of "settled (try_block cfg rt p u k now)"] by (simp add: chain_Retry)
next
  case (Rethrow k now e)
  then show ?case by (simp add: chain_Rethrow)
qed


text \<open>The attempts of one chain follow one another: at most one of them is under way.\<close>

lemma outstanding_Nil [simp]: "outstanding [] t = 0"
  by (simp add: outstanding_def)

lemma outstanding_Cons:
  "outstanding (a # as) t = (if started a \<le> t \<and> t < settled a then 1 else 0) + outstanding as t"
  by (simp add: outstanding_def)

lemma outstanding_append [simp]: "outstanding (as @ bs) t = outstanding as t + outstanding bs t"
  by (simp add: outstanding_def)

lemma outstanding_zero:
  "\<forall>a \<in> set as. t < started a \<or> settled a \<le> t \<Longrightarrow> outstanding as t = 0"
  by (induction as) (auto simp add: outstanding_Cons)

lemma outstanding_concat:
  "\<forall>c \<in> set cs. outstanding (attempts c) t \<le> 1 \<Longrightarrow>
   outstanding (concat (map attempts cs)) t \<le> length cs"
  by (induction cs) (auto simp add: le_Suc_eq)

lemma chain_outstanding_outside:
  assumes "t < now \<or> settle (fetchWithTimeout cfg rt p u k now) \<le> t"
  shows "outstanding (attempts (fetchWithTimeout cfg rt p u k now)) t = 0"
proof (rule outstanding_zero, rule ballI)
  fix a
  assume "a \<in> set (attempts (fetchWithTimeout cfg rt p u k now))"
  from chain_attempts[OF this] assms show "t < started a \<or> settled a \<le> t" by auto
qed

lemma chain_outstanding_le: "outstanding (attempts (fetchWithTimeout cfg rt p u k now)) t \<le> 1"
proof (induction k now rule: chain_induct[of cfg rt p u])
  case (Returns k now v)
  then show ?case by (simp add: chain_Returns outstanding_Cons)
next
  case (Retry k now e)
  let ?h = "try_block cfg rt p u k now"
  let ?rest = "fetchWithTimeout cfg rt p u (k + 1) (settled ?h)"
  have eq: "attempts (fetchWithTimeout cfg rt p u k now) = finally_block ?h # attempts ?rest"
    using Retry(1,2) by (simp add: chain_Retry)
  show ?case
  proof (cases "t < settled ?h")
    case True
    then have "outstanding (attempts ?rest) t = 0" by (simp add: chain_outstanding_outside)
    then show ?thesis by (simp add: eq outstanding_Cons)
  next
    case False
    then show ?thesis using Retry(3)[of "settled ?h"] by (simp add: eq outstanding_Cons)
  qed
next
  case (Rethrow k now e)
  then show ?case by (simp add: chain_Rethrow outstanding_Cons)
qed





subsection \<open>Slices, batch counts and \<^verbatim>\<open>Promise.all\<close>\<close>

lemma slice_nonneg:
  "0 \<le> s \<Longrightarrow> s \<le> e \<Longrightarrow> slice xs s e = take (nat e - nat s) (drop (nat s) xs)"
  by (cases "nat s \<le> length xs") (auto simp add: slice_def Let_def min_def nat_diff_distrib)

lemma currentBatch_pos:
  assumes "0 < batchSize cfg"
  shows "currentBatch cfg urls i = take (nat (batchSize cfg)) (drop (i * nat (batchSize cfg)) urls)"
proof -
  have "nat ((int i + 1) * batchSize cfg) - nat (int i * batchSize cfg) = nat (batchSize cfg)"
    using assms by (simp add: nat_mult_distrib nat_add_distrib algebra_simps)
  moreover have "nat (int i * batchSize cfg) = i * nat (batchSize cfg)"
    using assms by (simp add: nat_mult_distrib)
  moreover have "int i * batchSize cfg \<le> (int i + 1) * batchSize cfg"
    using assms by (simp add: algebra_simps)
  ultimately show ?thesis
    using assms by (simp add: currentBatch_def slice_nonneg)
qed

lemma length_currentBatch:
  "0 < batchSize cfg \<Longrightarrow> length (currentBatch cfg urls i) \<le> nat (batchSize cfg)"
  by (simp add: currentBatch_pos)

lemma length_currentBatch_eq:
  "0 < batchSize cfg \<Longrightarrow>
   length (currentBatch cfg urls i) = min (nat (batchSize cfg)) (length urls - i * nat (batchSize cfg))"
  by (simp add: currentBatch_pos min.commute)

lemma currentBatch_nth:
  assumes "0 < batchSize cfg" "k < length (currentBatch cfg urls i)"
  shows "currentBatch cfg urls i ! k = urls ! (i * nat (batchSize cfg) + k)"
    and "i * nat (batchSize cfg) + k < length urls"
    and "k < nat (batchSize cfg)"
  using assms by (auto simp add: currentBatch_pos)

lemma currentBatch_in_list:
  assumes b: "0 < batchSize cfg" and p: "p < length urls"
  shows "p mod nat (batchSize cfg) < length (currentBatch cfg urls (p div nat (batchSize cfg))) \<and>
         currentBatch cfg urls (p div nat (batchSize cfg)) ! (p mod nat (batchSize cfg)) = urls ! p"
proof -
  let ?b = "nat (batchSize cfg)"
  have pk: "p div ?b * ?b + p mod ?b = p" by simp
  have k: "p mod ?b < length (currentBatch cfg urls (p div ?b))"
  proof -
    have "p mod ?b < ?b" using b by simp
    moreover have "p mod ?b < length urls - p div ?b * ?b" using p pk by linarith
    ultimately show ?thesis by (simp add: length_currentBatch_eq[OF b])
  qed
  with currentBatch_nth(1)[OF b k] pk show ?thesis by simp
qed

lemma batch_base: "0 < batchSize cfg \<Longrightarrow> nat (int i * batchSize cfg) = i * nat (batchSize cfg)"
  by (simp add: nat_mult_distrib)


lemma array_length_pos:
  assumes "0 < b"
  shows "array_length n b = Some (nat \<lceil>real n / real_of_int b\<rceil>)"
proof -
  have "\<lceil>real n / real_of_int b\<rceil> = - ((- int n) div b)"
    using ceiling_divide_eq_div[of "int n" b] by simp
  moreover have "(- int n) div b \<le> 0"
    using assms by (cases "n = 0") (simp_all add: pos_imp_zdiv_neg_iff order_less_imp_le)
  ultimately show ?thesis using assms by (simp add: array_length_def Let_def)
qed

lemma array_length_empty: "b \<noteq> 0 \<Longrightarrow> array_length 0 b = Some 0"
  by (simp add: array_length_def)

lemma batch_count_covers:
  assumes "0 < b"
  shows "n \<le> nat \<lceil>real n / real_of_int b\<rceil> * nat b"
proof -
  have pos: "0 < real_of_int b" using assms by simp
  have "real n / real_of_int b \<le> real_of_int \<lceil>real n / real_of_int b\<rceil>"
    by (rule le_of_int_ceiling)
  then have "real n \<le> real_of_int \<lceil>real n / real_of_int b\<rceil> * real_of_int b"
    using pos_divide_le_eq[OF pos] by blast
  then have "int n \<le> \<lceil>real n / real_of_int b\<rceil> * b"
    by (metis of_int_le_iff of_int_mult of_int_of_nat_eq)
  moreover have "0 \<le> \<lceil>real n / real_of_int b\<rceil>"
  proof -
    have "0 \<le> real n / real_of_int b" using pos by simp
    then show ?thesis by linarith
  qed
  ultimately show ?thesis using assms
    by (metis nat_int nat_mono nat_mult_distrib)
qed

lemma batch_count_tight:
  assumes "0 < b" "p < n"
  shows "p div nat b < nat \<lceil>real n / real_of_int b\<rceil>"
proof (rule ccontr)
  assume "\<not> ?thesis"
  then have "nat \<lceil>real n / real_of_int b\<rceil> \<le> p div nat b" by (simp only: not_less)
  then have "nat \<lceil>real n / real_of_int b\<rceil> * nat b \<le> (p div nat b) * nat b"
    by (rule mult_le_mono1)
  also have "\<dots> \<le> p" by simp
  finally show False using batch_count_covers[OF assms(1), of n] assms(2) by simp
qed

lemma first_rejection_None:
  "first_rejection before p cs = None \<longleftrightarrow> (\<forall>c \<in> set cs. \<exists>v. result c = Inr v)"
  by (induction cs arbitrary: p) (auto split: sum.splits option.splits)

lemma first_rejection_Some:
  "first_rejection before p cs = Some (t, q, e) \<Longrightarrow>
   (\<exists>c \<in> set cs. result c = Inl e \<and> settle c = t) \<and>
   (\<forall>c \<in> set cs. isl (result c) \<longrightarrow> t \<le> settle c)"
proof (induction cs arbitrary: p t q e)
  case Nil
  then show ?case by simp
next
  case (Cons c cs)
  show ?case
  proof (cases "result c")
    case (Inr v)
    with Cons.prems have "first_rejection before (p + 1) cs = Some (t, q, e)" by simp
    from Cons.IH[OF this] Inr show ?thesis by auto
  next
    case (Inl e0)
    show ?thesis
    proof (cases "first_rejection before (p + 1) cs")
      case None
      with Inl Cons.prems have "t = settle c" "e = e0" by auto
      moreover from None have "\<forall>c \<in> set cs. \<not> isl (result c)"
        by (auto simp add: first_rejection_None)
      ultimately show ?thesis using Inl by auto
    next
      case (Some r)
      obtain t' q' e' where r: "r = (t', q', e')" by (cases r)
      note IH = Cons.IH[OF Some[unfolded r]]
      show ?thesis
      proof (cases "settle c < t' \<or> (settle c = t' \<and> before p q')")
        case True
        with Inl Some r Cons.prems have "t = settle c" "e = e0" by auto
        moreover from True have "settle c \<le> t'" by auto
        ultimately show ?thesis using IH Inl by auto
      next
        case False
        with Inl Some r Cons.prems have "t = t'" "e = e'" by auto
        moreover from False have "t' \<le> settle c" by auto
        ultimately show ?thesis using IH Inl by auto
      qed
    qed
  qed
qed


lemma fold_max_ge: "now \<le> fold max ts (now::nat)"
  by (induction ts arbitrary: now) (auto intro: order_trans[OF max.cobounded2])

lemma fold_max_mem: "t \<in> set ts \<Longrightarrow> t \<le> fold max ts (now::nat)"
proof (induction ts arbitrary: now)
  case Nil
  then show ?case by simp
next
  case (Cons x ts)
  show ?case
  proof (cases "t = x")
    case True
    have "x \<le> max x now" by simp
    also have "\<dots> \<le> fold max ts (max x now)" by (rule fold_max_ge)
    finally show ?thesis using True by simp
  next
    case False
    with Cons show ?thesis by simp
  qed
qed

lemma length_fulfilled:
  "\<forall>c \<in> set cs. \<exists>v. result c = Inr v \<Longrightarrow> length (fulfilled cs) = length cs"
  by (induction cs) auto

lemma Promise_all_cases:
  obtains (rejected) t e c where "Promise_all rt p now cs = (t, Inl e)" "c \<in> set cs"
      "result c = Inl e" "settle c = t"
  | (resolved) "Promise_all rt p now cs = (fold max (map settle cs) now, Inr (fulfilled cs))"
      "\<forall>c \<in> set cs. \<exists>v. result c = Inr v"
proof (cases "first_rejection (processed_first rt) p cs")
  case None
  then have "Promise_all rt p now cs = (fold max (map settle cs) now, Inr (fulfilled cs))"
    by (simp add: Promise_all_def)
  moreover from None have "\<forall>c \<in> set cs. \<exists>v. result c = Inr v"
    by (simp add: first_rejection_None)
  ultimately show ?thesis by (rule resolved)
next
  case (Some r)
  obtain t q e where r: "r = (t, q, e)" by (cases r)
  from first_rejection_Some[OF Some[unfolded r]] obtain c where
    "c \<in> set cs" "result c = Inl e" "settle c = t" by blast
  moreover from Some r have "Promise_all rt p now cs = (t, Inl e)"
    by (simp add: Promise_all_def)
  ultimately show ?thesis using rejected by blast
qed

subsection \<open>The batch loop\<close>

lemma length_batch_promises [simp]:
  "length (batch_promises cfg rt urls i now) = length (currentBatch cfg urls i)"
  by (simp add: batch_promises_def)

lemma nth_batch_promises:
  "k < length (currentBatch cfg urls i) \<Longrightarrow>
   batch_promises cfg rt urls i now ! k =
     fetchWithTimeout cfg rt (nat (int i * batchSize cfg) + k) (currentBatch cfg urls i ! k) 1 now"
  by (simp add: batch_promises_def nth_enumerate_eq)

lemma in_batch_promises:
  "c \<in> set (batch_promises cfg rt urls i now) \<Longrightarrow>
   \<exists>k < length (currentBatch cfg urls i).
     c = fetchWithTimeout cfg rt (nat (int i * batchSize cfg) + k) (currentBatch cfg urls i ! k) 1 now"
  by (metis in_set_conv_nth length_batch_promises nth_batch_promises)

text \<open>
  One turn of the loop either ends the run, because a chain of the batch rejected or because
  line 171 overflowed, or hands over to the next turn.
\<close>

lemma run_step [case_names stopped continued]:
  obtains (stopped) t e where
      "run_batches cfg rt urls (i # js) now results =
         \<lparr>returned = Inl e, finished = t, batches = [currentBatch cfg urls i],
          calls = concat (map attempts (batch_promises cfg rt urls i now))\<rparr>"
      "(\<exists>c \<in> set (batch_promises cfg rt urls i now). result c = Inl e) \<or>
       (e = stack_overflow \<and>
        (\<forall>c \<in> set (batch_promises cfg rt urls i now). \<exists>v. result c = Inr v) \<and>
        max_arguments rt < length (currentBatch cfg urls i))"
  | (continued)
      "run_batches cfg rt urls (i # js) now results =
         (run_batches cfg rt urls js (fold max (map settle (batch_promises cfg rt urls i now)) now)
            (results @ fulfilled (batch_promises cfg rt urls i now)))
         \<lparr>batches := currentBatch cfg urls i #
            batches (run_batches cfg rt urls js
              (fold max (map settle (batch_promises cfg rt urls i now)) now)
              (results @ fulfilled (batch_promises cfg rt urls i now))),
          calls := concat (map attempts (batch_promises cfg rt urls i now)) @
            calls (run_batches cfg rt urls js
              (fold max (map settle (batch_promises cfg rt urls i now)) now)
              (results @ fulfilled (batch_promises cfg rt urls i now)))\<rparr>"
      "\<forall>c \<in> set (batch_promises cfg rt urls i now). \<exists>v. result c = Inr v"
      "length (currentBatch cfg urls i) \<le> max_arguments rt"
proof -
  let ?ps = "batch_promises cfg rt urls i now"
  show ?thesis
  proof (cases rule: Promise_all_cases[where rt = rt and p = "nat (int i * batchSize cfg)"
        and now = now and cs = ?ps])
    case (rejected t e c)
    from rejected(1) have "run_batches cfg rt urls (i # js) now results =
         \<lparr>returned = Inl e, finished = t, batches = [currentBatch cfg urls i],
          calls = concat (map attempts ?ps)\<rparr>"
      by (simp add: Let_def)
    moreover from rejected(2,3) have "\<exists>c \<in> set ?ps. result c = Inl e" by blast
    ultimately show ?thesis using stopped by blast
  next
    case resolved
    from resolved(2) have len: "length (fulfilled ?ps) = length (currentBatch cfg urls i)"
      by (simp add: length_fulfilled)
    show ?thesis
    proof (cases "max_arguments rt < length (currentBatch cfg urls i)")
      case True
      with resolved(1) len have "run_batches cfg rt urls (i # js) now results =
         \<lparr>returned = Inl stack_overflow, finished = fold max (map settle ?ps) now,
          batches = [currentBatch cfg urls i], calls = concat (map attempts ?ps)\<rparr>"
        by (simp add: Let_def)
      then show ?thesis using stopped resolved(2) True by blast
    next
      case False
      with resolved(1) len have "run_batches cfg rt urls (i # js) now results =
         (run_batches cfg rt urls js (fold max (map settle ?ps) now) (results @ fulfilled ?ps))
         \<lparr>batches := currentBatch cfg urls i #
            batches (run_batches cfg rt urls js (fold max (map settle ?ps) now)
              (results @ fulfilled ?ps)),
          calls := concat (map attempts ?ps) @
            calls (run_batches cfg rt urls js (fold max (map settle ?ps) now)
              (results @ fulfilled ?ps))\<rparr>"
        by (simp add: Let_def)
      then show ?thesis using continued resolved(2) False by simp
    qed
  qed
qed

declare run_batches.simps(2) [simp del]

lemma batch_calls_member:
  assumes "a \<in> set (concat (map attempts (batch_promises cfg rt urls i now)))"
  obtains k where "k < length (currentBatch cfg urls i)"
    "a \<in> set (attempts (fetchWithTimeout cfg rt (nat (int i * batchSize cfg) + k)
                          (currentBatch cfg urls i ! k) 1 now))"
proof -
  from assms obtain c where "c \<in> set (batch_promises cfg rt urls i now)" "a \<in> set (attempts c)"
    by auto
  with in_batch_promises[of c cfg rt urls i now] that show ?thesis by blast
qed

lemma batch_calls_times:
  assumes "a \<in> set (concat (map attempts (batch_promises cfg rt urls i now)))"
  shows "now \<le> started a \<and>
         settled a \<le> fold max (map settle (batch_promises cfg rt urls i now)) now"
proof -
  from assms obtain c where c: "c \<in> set (batch_promises cfg rt urls i now)" "a \<in> set (attempts c)"
    by auto
  from in_batch_promises[OF c(1)] obtain k where
    k: "c = fetchWithTimeout cfg rt (nat (int i * batchSize cfg) + k) (currentBatch cfg urls i ! k) 1 now"
    by blast
  from c(2) have "now \<le> started a \<and> settled a \<le> settle c"
    unfolding k using chain_attempts by blast
  moreover from c(1) have "settle c \<le> fold max (map settle (batch_promises cfg rt urls i now)) now"
    by (intro fold_max_mem) simp
  ultimately show ?thesis by simp
qed

lemma batch_calls_slot:
  assumes b: "0 < batchSize cfg"
    and a: "a \<in> set (concat (map attempts (batch_promises cfg rt urls i now)))"
  shows "slot a div nat (batchSize cfg) = i"
proof -
  let ?b = "nat (batchSize cfg)"
  from a obtain k where k: "k < length (currentBatch cfg urls i)"
    and mem: "a \<in> set (attempts (fetchWithTimeout cfg rt (nat (int i * batchSize cfg) + k)
                          (currentBatch cfg urls i ! k) 1 now))"
    by (rule batch_calls_member)
  from chain_attempts[OF mem]
  have "a = finally_block (try_block cfg rt (nat (int i * batchSize cfg) + k)
               (currentBatch cfg urls i ! k) (number a) (started a))" by simp
  then have "slot a = i * ?b + k"
    by (metis batch_base b finally_block_fields(1) try_block_fields(1))
  moreover from currentBatch_nth(3)[OF b k] have "(i * ?b + k) div ?b = i" by simp
  ultimately show ?thesis by simp
qed

lemma batch_outstanding:
  "outstanding (concat (map attempts (batch_promises cfg rt urls i now))) t
     \<le> length (currentBatch cfg urls i)"
proof -
  have "\<forall>c \<in> set (batch_promises cfg rt urls i now). outstanding (attempts c) t \<le> 1"
    using in_batch_promises chain_outstanding_le by metis
  from outstanding_concat[OF this] show ?thesis by simp
qed

lemma batch_chain_order:
  assumes b: "0 < batchSize cfg"
    and a: "a \<in> set (concat (map attempts (batch_promises cfg rt urls i now)))"
    and a': "a' \<in> set (concat (map attempts (batch_promises cfg rt urls i now)))"
    and same: "slot a = slot a'" and lt: "number a < number a'"
  shows "settled a \<le> started a'"
proof -
  let ?base = "nat (int i * batchSize cfg)"
  from a obtain k where k: "k < length (currentBatch cfg urls i)"
    and mem: "a \<in> set (attempts (fetchWithTimeout cfg rt (?base + k) (currentBatch cfg urls i ! k) 1 now))"
    by (rule batch_calls_member)
  from a' obtain k' where k': "k' < length (currentBatch cfg urls i)"
    and mem': "a' \<in> set (attempts (fetchWithTimeout cfg rt (?base + k') (currentBatch cfg urls i ! k') 1 now))"
    by (rule batch_calls_member)
  from chain_attempts[OF mem] have "slot a = ?base + k"
    by (metis finally_block_fields(1) try_block_fields(1))
  moreover from chain_attempts[OF mem'] have "slot a' = ?base + k'"
    by (metis finally_block_fields(1) try_block_fields(1))
  ultimately have "k = k'" using same by simp
  with mem mem' lt show ?thesis by (blast intro: chain_sequential)
qed

text \<open>What the chains of batch \<open>i\<close> settle with, from what the chains of its positions do.\<close>

lemma batch_result:
  assumes b: "0 < batchSize cfg"
    and k: "k < length (currentBatch cfg urls i)"
  shows "result (batch_promises cfg rt urls i now ! k) =
           fetched cfg rt (i * nat (batchSize cfg) + k) (urls ! (i * nat (batchSize cfg) + k))"
  using nth_batch_promises[OF k, of rt now] currentBatch_nth(1)[OF b k] batch_base[OF b, of i]
    result_start[of cfg rt "i * nat (batchSize cfg) + k" "urls ! (i * nat (batchSize cfg) + k)" 1 now 0]
  by (simp add: fetched_def)


lemma batch_rejection:
  assumes b: "0 < batchSize cfg"
    and p: "p < length urls"
    and fail: "fetched cfg rt p (urls ! p) = Inl e0"
  shows "\<exists>c \<in> set (batch_promises cfg rt urls (p div nat (batchSize cfg)) now). result c = Inl e0"
proof -
  let ?b = "nat (batchSize cfg)"
  let ?i = "p div ?b"
  let ?k = "p mod ?b"
  let ?ps = "batch_promises cfg rt urls ?i now"
  have pk: "?i * ?b + ?k = p" by simp
  from currentBatch_in_list[OF b p] have k: "?k < length (currentBatch cfg urls ?i)" by simp
  have "result (?ps ! ?k) = fetched cfg rt p (urls ! p)"
    using batch_result[OF b k, of rt now] pk by simp
  with fail have "result (?ps ! ?k) = Inl e0" by simp
  moreover from k have "?ps ! ?k \<in> set ?ps" by simp
  ultimately show ?thesis by blast
qed


text \<open>Where the attempts of a run come from.\<close>

lemma run_calls_member:
  "a \<in> set (calls (run_batches cfg rt urls is now results)) \<Longrightarrow>
   \<exists>i \<in> set is. \<exists>k < length (currentBatch cfg urls i). \<exists>t. now \<le> t \<and>
      a \<in> set (attempts (fetchWithTimeout cfg rt (nat (int i * batchSize cfg) + k)
                            (currentBatch cfg urls i ! k) 1 t))"
proof (induction "is" arbitrary: now results)
  case Nil
  then show ?case by simp
next
  case (Cons i "is")
  let ?ps = "batch_promises cfg rt urls i now"
  show ?case
  proof (cases rule: run_step[where cfg = cfg and rt = rt and urls = urls and i = i
        and js = "is" and now = now and results = results])
    case (stopped t e)
    with Cons.prems have "a \<in> set (concat (map attempts ?ps))" by simp
    then show ?thesis by (elim batch_calls_member) auto
  next
    case continued
    let ?t = "fold max (map settle ?ps) now"
    let ?rest = "run_batches cfg rt urls is ?t (results @ fulfilled ?ps)"
    from Cons.prems continued(1)
    have "a \<in> set (concat (map attempts ?ps)) \<or> a \<in> set (calls ?rest)" by simp
    then show ?thesis
    proof
      assume "a \<in> set (concat (map attempts ?ps))"
      then show ?thesis by (elim batch_calls_member) auto
    next
      assume "a \<in> set (calls ?rest)"
      from Cons.IH[OF this] obtain j k t where
        "j \<in> set is" "k < length (currentBatch cfg urls j)" "?t \<le> t"
        "a \<in> set (attempts (fetchWithTimeout cfg rt (nat (int j * batchSize cfg) + k)
                            (currentBatch cfg urls j ! k) 1 t))"
        by blast
      moreover have "now \<le> ?t" by (rule fold_max_ge)
      ultimately show ?thesis by (auto intro: order_trans)
    qed
  qed
qed

lemma run_calls_start:
  assumes "a \<in> set (calls (run_batches cfg rt urls is now results))"
  shows "now \<le> started a"
proof -
  from run_calls_member[OF assms] obtain i k t where "now \<le> t"
    "a \<in> set (attempts (fetchWithTimeout cfg rt (nat (int i * batchSize cfg) + k)
                            (currentBatch cfg urls i ! k) 1 t))"
    by blast
  with chain_attempts[OF this(2)] show ?thesis by simp
qed

lemma run_calls_attempt:
  assumes "a \<in> set (calls (run_batches cfg rt urls is now results))"
  shows "a = finally_block (try_block cfg rt (slot a) (url a) (number a) (started a))"
proof -
  from run_calls_member[OF assms] obtain P U t where
    "a \<in> set (attempts (fetchWithTimeout cfg rt P U 1 t))" by blast
  from chain_attempts[OF this]
  have eq: "a = finally_block (try_block cfg rt P U (number a) (started a))" by simp
  then have "slot a = P" "url a = U"
    by (metis finally_block_fields(1) try_block_fields(1), metis finally_block_fields(2) try_block_fields(2))
  with eq show ?thesis by simp
qed

lemma run_calls_shape:
  assumes b: "0 < batchSize cfg"
    and a: "a \<in> set (calls (run_batches cfg rt urls is now results))"
  shows "slot a div nat (batchSize cfg) \<in> set is \<and> slot a < length urls \<and>
         url a = urls ! slot a \<and> 1 \<le> number a \<and> now \<le> started a \<and>
         a = finally_block (try_block cfg rt (slot a) (url a) (number a) (started a))"
proof -
  let ?b = "nat (batchSize cfg)"
  from run_calls_member[OF a] obtain i k t where i: "i \<in> set is"
    and k: "k < length (currentBatch cfg urls i)" and t: "now \<le> t"
    and mem: "a \<in> set (attempts (fetchWithTimeout cfg rt (nat (int i * batchSize cfg) + k)
                            (currentBatch cfg urls i ! k) 1 t))"
    by blast
  from chain_attempts[OF mem]
  have eq: "a = finally_block (try_block cfg rt (nat (int i * batchSize cfg) + k)
               (currentBatch cfg urls i ! k) (number a) (started a))"
    and n: "1 \<le> number a" and s: "t \<le> started a" by simp_all
  from eq have sl: "slot a = i * ?b + k"
    by (metis batch_base b finally_block_fields(1) try_block_fields(1))
  from eq have u: "url a = currentBatch cfg urls i ! k"
    by (metis finally_block_fields(2) try_block_fields(2))
  from currentBatch_nth[OF b k] have kb: "k < ?b" and lt: "i * ?b + k < length urls"
    and nth: "currentBatch cfg urls i ! k = urls ! (i * ?b + k)" by simp_all
  from kb have "(i * ?b + k) div ?b = i" by simp
  with sl i have "slot a div ?b \<in> set is" by simp
  moreover from eq sl u have "a = finally_block (try_block cfg rt (slot a) (url a) (number a) (started a))"
    using batch_base[OF b, of i] by simp
  ultimately show ?thesis using sl lt u nth n s t by simp
qed

lemma run_calls_chain:
  "a \<in> set (calls (run_batches cfg rt urls is now results)) \<Longrightarrow>
   \<exists>P U t. a \<in> set (attempts (fetchWithTimeout cfg rt P U 1 t)) \<and>
      set (attempts (fetchWithTimeout cfg rt P U 1 t)) \<subseteq> set (calls (run_batches cfg rt urls is now results))"
proof (induction "is" arbitrary: now results)
  case Nil
  then show ?case by simp
next
  case (Cons i "is")
  let ?ps = "batch_promises cfg rt urls i now"
  have batch: "\<exists>P U t. a \<in> set (attempts (fetchWithTimeout cfg rt P U 1 t)) \<and>
      set (attempts (fetchWithTimeout cfg rt P U 1 t)) \<subseteq> set (concat (map attempts ?ps))"
    if "a \<in> set (concat (map attempts ?ps))"
  proof -
    from that obtain c where c: "c \<in> set ?ps" "a \<in> set (attempts c)" by auto
    from in_batch_promises[OF c(1)] obtain k where
      "c = fetchWithTimeout cfg rt (nat (int i * batchSize cfg) + k) (currentBatch cfg urls i ! k) 1 now"
      by blast
    with c show ?thesis by (intro exI[of _ "nat (int i * batchSize cfg) + k"]
          exI[of _ "currentBatch cfg urls i ! k"] exI[of _ now]) auto
  qed
  show ?case
  proof (cases rule: run_step[where cfg = cfg and rt = rt and urls = urls and i = i
        and js = "is" and now = now and results = results])
    case (stopped t e)
    with Cons.prems batch show ?thesis by simp
  next
    case continued
    let ?rest = "run_batches cfg rt urls is (fold max (map settle ?ps) now) (results @ fulfilled ?ps)"
    have eq: "calls (run_batches cfg rt urls (i # is) now results) =
        concat (map attempts ?ps) @ calls ?rest"
      using continued(1) by simp
    from Cons.prems eq have "a \<in> set (concat (map attempts ?ps)) \<or> a \<in> set (calls ?rest)"
      by simp
    then obtain P U t where "a \<in> set (attempts (fetchWithTimeout cfg rt P U 1 t))"
      "set (attempts (fetchWithTimeout cfg rt P U 1 t)) \<subseteq> set (concat (map attempts ?ps)) \<or>
       set (attempts (fetchWithTimeout cfg rt P U 1 t)) \<subseteq> set (calls ?rest)"
      using batch Cons.IH[of "fold max (map settle ?ps) now" "results @ fulfilled ?ps"] by blast
    then have "a \<in> set (attempts (fetchWithTimeout cfg rt P U 1 t)) \<and>
      set (attempts (fetchWithTimeout cfg rt P U 1 t))
        \<subseteq> set (calls (run_batches cfg rt urls (i # is) now results))"
      unfolding eq set_append by blast
    then show ?thesis by blast
  qed
qed

lemma run_retries_thrown:
  assumes "a \<in> set (calls (run_batches cfg rt urls is now results))"
    and "outcome a = Throws e" and "int (number a) < retries cfg"
  shows "\<exists>a' \<in> set (calls (run_batches cfg rt urls is now results)).
           slot a' = slot a \<and> number a' = number a + 1 \<and> started a' = settled a"
proof -
  from run_calls_chain[OF assms(1)] obtain P U t where
    mem: "a \<in> set (attempts (fetchWithTimeout cfg rt P U 1 t))"
    and sub: "set (attempts (fetchWithTimeout cfg rt P U 1 t))
              \<subseteq> set (calls (run_batches cfg rt urls is now results))"
    by blast
  from chain_retries_thrown[OF mem assms(2,3)] obtain a' where
    a': "a' \<in> set (attempts (fetchWithTimeout cfg rt P U 1 t))"
      "number a' = number a + 1" "started a' = settled a"
    by blast
  have "slot a = P" using chain_attempts[OF mem]
    by (metis finally_block_fields(1) try_block_fields(1))
  moreover have "slot a' = P" using chain_attempts[OF a'(1)]
    by (metis finally_block_fields(1) try_block_fields(1))
  ultimately show ?thesis using a' sub by auto
qed

text \<open>Concurrency and order.\<close>

lemma run_outstanding:
  assumes "0 < batchSize cfg"
  shows "outstanding (calls (run_batches cfg rt urls is now results)) t \<le> nat (batchSize cfg)"
proof (induction "is" arbitrary: now results)
  case Nil
  then show ?case by simp
next
  case (Cons i "is")
  let ?ps = "batch_promises cfg rt urls i now"
  have batch: "outstanding (concat (map attempts ?ps)) t \<le> nat (batchSize cfg)"
    using batch_outstanding[of cfg rt urls i now t] length_currentBatch[OF assms, of urls i]
    by simp
  show ?case
  proof (cases rule: run_step[where cfg = cfg and rt = rt and urls = urls and i = i
        and js = "is" and now = now and results = results])
    case (stopped t' e)
    then show ?thesis using batch by simp
  next
    case continued
    let ?t = "fold max (map settle ?ps) now"
    let ?rest = "run_batches cfg rt urls is ?t (results @ fulfilled ?ps)"
    have eq: "calls (run_batches cfg rt urls (i # is) now results) =
        concat (map attempts ?ps) @ calls ?rest"
      using continued(1) by simp
    show ?thesis
    proof (cases "t < ?t")
      case True
      have "outstanding (calls ?rest) t = 0"
      proof (rule outstanding_zero, rule ballI)
        fix a assume "a \<in> set (calls ?rest)"
        from run_calls_start[OF this] True show "t < started a \<or> settled a \<le> t" by simp
      qed
      with batch show ?thesis by (simp add: eq)
    next
      case False
      have "outstanding (concat (map attempts ?ps)) t = 0"
      proof (rule outstanding_zero, rule ballI)
        fix a assume "a \<in> set (concat (map attempts ?ps))"
        from batch_calls_times[OF this] False show "t < started a \<or> settled a \<le> t" by simp
      qed
      with Cons.IH[of ?t "results @ fulfilled ?ps"] show ?thesis by (simp add: eq)
    qed
  qed
qed

lemma run_batch_order:
  assumes b: "0 < batchSize cfg"
  shows "sorted_wrt (<) is \<Longrightarrow>
    a \<in> set (calls (run_batches cfg rt urls is now results)) \<Longrightarrow>
    a' \<in> set (calls (run_batches cfg rt urls is now results)) \<Longrightarrow>
    slot a div nat (batchSize cfg) < slot a' div nat (batchSize cfg) \<Longrightarrow> settled a \<le> started a'"
proof (induction "is" arbitrary: now results)
  case Nil
  then show ?case by simp
next
  case (Cons i "is")
  let ?b = "nat (batchSize cfg)"
  let ?ps = "batch_promises cfg rt urls i now"
  let ?batch = "concat (map attempts ?ps)"
  show ?case
  proof (cases rule: run_step[where cfg = cfg and rt = rt and urls = urls and i = i
        and js = "is" and now = now and results = results])
    case (stopped t e)
    with Cons.prems(2,3) have "a \<in> set ?batch" "a' \<in> set ?batch" by simp_all
    then have "slot a div ?b = i" "slot a' div ?b = i"
      by (simp_all add: batch_calls_slot[OF b])
    with Cons.prems(4) show ?thesis by simp
  next
    case continued
    let ?t = "fold max (map settle ?ps) now"
    let ?rest = "run_batches cfg rt urls is ?t (results @ fulfilled ?ps)"
    from Cons.prems(2) continued(1) have A: "a \<in> set ?batch \<or> a \<in> set (calls ?rest)" by simp
    from Cons.prems(3) continued(1) have B: "a' \<in> set ?batch \<or> a' \<in> set (calls ?rest)" by simp
    from Cons.prems(1) have sorted: "sorted_wrt (<) is" and gt: "\<forall>j \<in> set is. i < j" by simp_all
    show ?thesis
    proof (cases "a \<in> set ?batch")
      case inA: True
      then have sa: "slot a div ?b = i" by (rule batch_calls_slot[OF b])
      show ?thesis
      proof (cases "a' \<in> set ?batch")
        case True
        then have "slot a' div ?b = i" by (rule batch_calls_slot[OF b])
        with sa Cons.prems(4) show ?thesis by simp
      next
        case False
        with B have "a' \<in> set (calls ?rest)" by simp
        from run_calls_start[OF this] batch_calls_times[OF inA] show ?thesis by simp
      qed
    next
      case False
      with A have inA: "a \<in> set (calls ?rest)" by simp
      from run_calls_shape[OF b inA] gt have ia: "i < slot a div ?b" by blast
      show ?thesis
      proof (cases "a' \<in> set ?batch")
        case True
        then have "slot a' div ?b = i" by (rule batch_calls_slot[OF b])
        with ia Cons.prems(4) show ?thesis by simp
      next
        case False
        with B have "a' \<in> set (calls ?rest)" by simp
        from Cons.IH[OF sorted inA this Cons.prems(4)] show ?thesis .
      qed
    qed
  qed
qed

lemma run_chain_order:
  assumes b: "0 < batchSize cfg"
  shows "distinct is \<Longrightarrow>
    a \<in> set (calls (run_batches cfg rt urls is now results)) \<Longrightarrow>
    a' \<in> set (calls (run_batches cfg rt urls is now results)) \<Longrightarrow>
    slot a = slot a' \<Longrightarrow> number a < number a' \<Longrightarrow> settled a \<le> started a'"
proof (induction "is" arbitrary: now results)
  case Nil
  then show ?case by simp
next
  case (Cons i "is")
  let ?b = "nat (batchSize cfg)"
  let ?ps = "batch_promises cfg rt urls i now"
  let ?batch = "concat (map attempts ?ps)"
  show ?case
  proof (cases rule: run_step[where cfg = cfg and rt = rt and urls = urls and i = i
        and js = "is" and now = now and results = results])
    case (stopped t e)
    with Cons.prems(2,3) have "a \<in> set ?batch" "a' \<in> set ?batch" by simp_all
    then show ?thesis using Cons.prems(4,5) by (rule batch_chain_order[OF b])
  next
    case continued
    let ?t = "fold max (map settle ?ps) now"
    let ?rest = "run_batches cfg rt urls is ?t (results @ fulfilled ?ps)"
    from Cons.prems(2) continued(1) have A: "a \<in> set ?batch \<or> a \<in> set (calls ?rest)" by simp
    from Cons.prems(3) continued(1) have B: "a' \<in> set ?batch \<or> a' \<in> set (calls ?rest)" by simp
    from Cons.prems(1) have dist: "distinct is" and notin: "i \<notin> set is" by simp_all
    have rest_slot: "x \<in> set (calls ?rest) \<Longrightarrow> slot x div ?b \<noteq> i" for x
      using run_calls_shape[OF b, of x rt urls "is" ?t] notin by blast
    show ?thesis
    proof (cases "a \<in> set ?batch")
      case inA: True
      then have sa: "slot a div ?b = i" by (rule batch_calls_slot[OF b])
      with rest_slot[of a'] Cons.prems(4) B have "a' \<in> set ?batch" by auto
      with inA show ?thesis using Cons.prems(4,5) by (rule batch_chain_order[OF b])
    next
      case False
      with A have inA: "a \<in> set (calls ?rest)" by simp
      have "a' \<notin> set ?batch"
        using batch_calls_slot[OF b, of a' rt urls i now] rest_slot[OF inA] Cons.prems(4) by auto
      with B have "a' \<in> set (calls ?rest)" by simp
      from Cons.IH[OF dist inA this Cons.prems(4,5)] show ?thesis .
    qed
  qed
qed


lemma run_fail_fast:
  assumes b: "0 < batchSize cfg"
    and p: "p < length urls"
    and fail: "fetched cfg rt p (urls ! p) = Inl e0"
  shows "isl (returned (run_batches cfg rt urls (pre @ p div nat (batchSize cfg) # post) now results)) \<and>
         (\<forall>a \<in> set (calls (run_batches cfg rt urls (pre @ p div nat (batchSize cfg) # post) now results)).
            slot a div nat (batchSize cfg) \<in> set pre \<union> {p div nat (batchSize cfg)})"
proof (induction pre arbitrary: now results)
  case Nil
  show ?case
  proof (cases rule: run_step[where cfg = cfg and rt = rt and urls = urls
        and i = "p div nat (batchSize cfg)" and js = post and now = now and results = results])
    case (stopped t e)
    then show ?thesis using batch_calls_slot[OF b] by simp
  next
    case continued
    from continued(2) batch_rejection[OF b p fail, of now] have False by auto
    then show ?thesis ..
  qed
next
  case (Cons j pre)
  let ?ps = "batch_promises cfg rt urls j now"
  show ?case
  proof (cases rule: run_step[where cfg = cfg and rt = rt and urls = urls and i = j
        and js = "pre @ p div nat (batchSize cfg) # post" and now = now and results = results])
    case (stopped t e)
    then show ?thesis using batch_calls_slot[OF b] by simp
  next
    case continued
    then show ?thesis
      using Cons.IH[of "fold max (map settle ?ps) now" "results @ fulfilled ?ps"]
        batch_calls_slot[OF b, of _ rt urls j now]
      by auto
  qed
qed




subsection \<open>\<^verbatim>\<open>parallelCalls\<close>\<close>

lemma parallelCalls_Some:
  assumes "array_length (length urls) (batchSize (destructure arg)) = Some c"
  shows "calls (parallelCalls rt urls arg) = calls (run_batches (destructure arg) rt urls [0..<c] 0 [])"
    and "batches (parallelCalls rt urls arg) = batches (run_batches (destructure arg) rt urls [0..<c] 0 [])"
    and "returned (parallelCalls rt urls arg) =
          (case returned (run_batches (destructure arg) rt urls [0..<c] 0 []) of
             Inl e \<Rightarrow> Inl (Error (message e)) | Inr results \<Rightarrow> Inr results)"
  using assms by (simp_all add: parallelCalls_def Let_def split: sum.splits)

lemma parallelCalls_None:
  assumes "array_length (length urls) (batchSize (destructure arg)) = None"
  shows "parallelCalls rt urls arg =
    \<lparr>returned = Inl (Error ''Invalid array length''), finished = 0, batches = [], calls = []\<rparr>"
  using assms by (simp add: parallelCalls_def Let_def)






text \<open>
  The timer of an attempt on every path through lines 139--158: what is done to it, that it is
  released once, and that an exception of the \<^verbatim>\<open>try\<close> block is followed by another attempt while
  \<^verbatim>\<open>attempt < retries\<close>.
\<close>

lemma attempt_timer:
  assumes "a \<in> set (calls (parallelCalls rt urls arg))"
  shows "(if latency (fetch rt (slot a) (url a) (number a)) < timer_delay (timeout (destructure arg))
          then (case answer (fetch rt (slot a) (url a) (number a)) of
                  Resolves r \<Rightarrow> timer_ops a = [ClearTimeout, ClearTimeout]
                | Rejects e \<Rightarrow> timer_ops a = [ClearTimeout] \<and> outcome a = Throws e)
          else timer_ops a = [Fires, ClearTimeout] \<and> outcome a = Throws (abort_reason rt) \<and>
               settled a = started a + timer_delay (timeout (destructure arg))) \<and>
         timer_after (timer_ops a) \<noteq> Armed \<and> releases Armed (timer_ops a) = 1 \<and>
         ((\<exists>e. outcome a = Throws e) \<and> int (number a) < retries (destructure arg) \<longrightarrow>
            (\<exists>a' \<in> set (calls (parallelCalls rt urls arg)).
               slot a' = slot a \<and> number a' = number a + 1 \<and> started a' = settled a))"
proof (cases "array_length (length urls) (batchSize (destructure arg))")
  case None
  with assms show ?thesis by (simp add: parallelCalls_None)
next
  case (Some c)
  note pc = parallelCalls_Some(1)[OF Some, of rt]
  from assms have mem: "a \<in> set (calls (run_batches (destructure arg) rt urls [0..<c] 0 []))"
    by (simp add: pc)
  note eq = run_calls_attempt[OF mem]
  have retried: "\<exists>a' \<in> set (calls (parallelCalls rt urls arg)).
      slot a' = slot a \<and> number a' = number a + 1 \<and> started a' = settled a"
    if "\<exists>e. outcome a = Throws e" "int (number a) < retries (destructure arg)"
  proof -
    from that(1) obtain e where "outcome a = Throws e" ..
    from run_retries_thrown[OF mem this that(2)] show ?thesis unfolding pc .
  qed
  show ?thesis
  proof (intro conjI impI)
    show "if latency (fetch rt (slot a) (url a) (number a)) < timer_delay (timeout (destructure arg))
          then (case answer (fetch rt (slot a) (url a) (number a)) of
                  Resolves r \<Rightarrow> timer_ops a = [ClearTimeout, ClearTimeout]
                | Rejects e \<Rightarrow> timer_ops a = [ClearTimeout] \<and> outcome a = Throws e)
          else timer_ops a = [Fires, ClearTimeout] \<and> outcome a = Throws (abort_reason rt) \<and>
               settled a = started a + timer_delay (timeout (destructure arg))"
      by (rule attempt_timer_ops[OF eq])
    show "timer_after (timer_ops a) \<noteq> Armed" "releases Armed (timer_ops a) = 1"
      using attempt_timer_released[OF eq] by simp_all
    assume "(\<exists>e. outcome a = Throws e) \<and> int (number a) < retries (destructure arg)"
    then show "\<exists>a' \<in> set (calls (parallelCalls rt urls arg)).
      slot a' = slot a \<and> number a' = number a + 1 \<and> started a' = settled a"
      using retried by blast
  qed
qed

subsection \<open>Evaluation of concrete runs\<close>

lemmas run_eval =
  parallelCalls_def destructure_def or_default_def no_options_def with_batchSize_def
  with_retries_def with_timeout_def with_retries_batchSize_def array_length_def Let_def
  run_batches.simps batch_promises_def currentBatch_def slice_def Promise_all_def
  fetchWithTimeout.simps try_block_def finally_block_def timer_delay_def node_def
  stack_overflow_def responds_def rejects_def Error_def fetched_def outstanding_def upt_conv_Cons

section \<open>The claims\<close>

text \<open>
  C1.  The claim fails on the program.  Take the default options (\<open>retries = 3\<close>) and the URLs
  \<open>/a\<close>, \<open>/b\<close> on a network where the first request for \<open>/a\<close> delivers its value, the first
  response for \<open>/b\<close> has status 200 and a body that is not JSON, and the second request for \<open>/b\<close>
  would deliver its value.  Every URL's fetch succeeds within its retry budget, yet the program
  makes no second request for \<open>/b\<close> and \<^verbatim>\<open>parallelCalls\<close> rejects with the parse error instead
  of resolving with the two values: line 148 returns the promise of \<^verbatim>\<open>response.json()\<close> without
  \<^verbatim>\<open>await\<close>, so that its rejection passes by the retry logic of the \<^verbatim>\<open>catch\<close> clause.  (Lemma
  \<open>parallelCalls_resolves\<close> gives the claim when every failure before the successful attempt is one
  that the \<^verbatim>\<open>catch\<close> clause sees and no batch has more URLs than a call takes arguments; lemma
  \<open>first_batch_too_large\<close> shows the rejection of line 171 otherwise.)
\<close>

theorem success_within_budget_is_rejected:
  "retries (destructure None) = 3 \<and>
   delivers (destructure None) (fetch rt_one_garbled_once 0 ''/a'' 1) (JString ''/a'') \<and>
   fetch rt_one_garbled_once 1 ''/b'' 1 = responds 10 200 (Inl bad_json) 5 \<and>
   delivers (destructure None) (fetch rt_one_garbled_once 1 ''/b'' 2) (JString ''/b'') \<and>
   map (\<lambda>a. (url a, number a)) (calls (parallelCalls rt_one_garbled_once [''/a'', ''/b''] None)) =
     [(''/a'', 1), (''/b'', 1)] \<and>
   returned (parallelCalls rt_one_garbled_once [''/a'', ''/b''] None) =
     Inl (Error ''Unexpected end of JSON input'')"
proof -
  have 1: "retries (destructure None) = 3" by (simp add: run_eval)
  have 2: "delivers (destructure None) (fetch rt_one_garbled_once 0 ''/a'' 1) (JString ''/a'')"
    by (simp add: delivers_def run_eval rt_one_garbled_once_def)
  have 3: "fetch rt_one_garbled_once 1 ''/b'' 1 = responds 10 200 (Inl bad_json) 5"
    by (simp add: rt_one_garbled_once_def node_def)
  have 4: "delivers (destructure None) (fetch rt_one_garbled_once 1 ''/b'' 2) (JString ''/b'')"
    by (simp add: delivers_def run_eval rt_one_garbled_once_def)
  have 5: "map (\<lambda>a. (url a, number a)) (calls (parallelCalls rt_one_garbled_once [''/a'', ''/b''] None)) =
     [(''/a'', 1), (''/b'', 1)]"
    by (simp add: run_eval rt_one_garbled_once_def)
  have 6: "returned (parallelCalls rt_one_garbled_once [''/a'', ''/b''] None) =
     Inl (Error ''Unexpected end of JSON input'')"
    by (simp add: run_eval rt_one_garbled_once_def bad_json_def)
  show ?thesis by (intro conjI) (rule 1 2 3 4 5 6)+
qed

text \<open>
  C2.  The claim fails on the program where an attempt fails while the body is decoded: with
  \<open>retries = 3\<close> and responses of status 200 whose bodies are not JSON, every attempt would
  fail, yet the chain makes one attempt, not three, and rejects with the parse error.  The
  promise of \<^verbatim>\<open>response.json()\<close> is returned from the \<^verbatim>\<open>try\<close> block without \<^verbatim>\<open>await\<close>, so
  that its rejection passes by the \<^verbatim>\<open>catch\<close> clause.
\<close>

theorem decode_failure_ends_chain_after_one_attempt:
  "retries (destructure None) = 3 \<and>
   map outcome (attempts (fetchWithTimeout (destructure None) rt_garbled 0 ''/a'' 1 0)) =
     [Returns (Inl bad_json)] \<and>
   result (fetchWithTimeout (destructure None) rt_garbled 0 ''/a'' 1 0) = Inl bad_json \<and>
   length (calls (parallelCalls rt_garbled [''/a''] None)) = 1 \<and>
   isl (returned (parallelCalls rt_garbled [''/a''] None))"
proof -
  have 1: "retries (destructure None) = 3" by (simp add: run_eval)
  have 2: "map outcome (attempts (fetchWithTimeout (destructure None) rt_garbled 0 ''/a'' 1 0)) =
     [Returns (Inl bad_json)]"
    by (simp add: run_eval rt_garbled_def)
  have 3: "result (fetchWithTimeout (destructure None) rt_garbled 0 ''/a'' 1 0) = Inl bad_json"
    by (simp add: run_eval rt_garbled_def)
  have 4: "length (calls (parallelCalls rt_garbled [''/a''] None)) = 1"
    by (simp add: run_eval rt_garbled_def)
  have 5: "isl (returned (parallelCalls rt_garbled [''/a''] None))"
    by (simp add: run_eval rt_garbled_def)
  show ?thesis by (intro conjI) (rule 1 2 3 4 5)+
qed

text \<open>
  C3.  Whenever the retry chain of some URL fails, at position \<open>p\<close> and so in batch
  \<open>p div batchSize\<close>, the whole operation fails: the caller receives an error (a bare
  \<^verbatim>\<open>Error\<close> with a message, no partial result), and no fetch attempt is made for any position
  of a later batch, whatever the earlier batches have fetched.
\<close>

theorem parallelCalls_fail_fast:
  assumes b: "0 < batchSize (destructure arg)"
    and p: "p < length urls"
    and fail: "isl (fetched (destructure arg) rt p (urls ! p))"
  shows "(\<exists>m. returned (parallelCalls rt urls arg) = Inl (Error m)) \<and>
         (\<forall>a \<in> set (calls (parallelCalls rt urls arg)).
            slot a div nat (batchSize (destructure arg)) \<le> p div nat (batchSize (destructure arg))) \<and>
         currentBatch (destructure arg) urls (p div nat (batchSize (destructure arg))) !
            (p mod nat (batchSize (destructure arg))) = urls ! p"
proof -
  let ?cfg = "destructure arg"
  let ?b = "nat (batchSize ?cfg)"
  let ?c = "nat \<lceil>real (length urls) / real_of_int (batchSize ?cfg)\<rceil>"
  let ?i = "p div ?b"
  let ?r = "run_batches ?cfg rt urls [0..<?c] 0 []"
  from fail obtain e0 where e0: "fetched ?cfg rt p (urls ! p) = Inl e0"
    by (cases "fetched ?cfg rt p (urls ! p)") auto
  have "?i < ?c" using b p by (rule batch_count_tight)
  then have split: "[0..<?c] = [0..<?i] @ ?i # [Suc ?i..<?c]"
    using upt_add_eq_append[of 0 ?i "?c - ?i"] by (simp add: upt_conv_Cons)
  from run_fail_fast[OF b p e0, where pre = "[0..<?i]" and post = "[Suc ?i..<?c]"
      and now = 0 and results = "[]"] split
  have isl: "isl (returned ?r)"
    and slots: "\<forall>a \<in> set (calls ?r). slot a div ?b \<in> set [0..<?i] \<union> {?i}"
    by simp_all
  note pc = parallelCalls_Some[OF array_length_pos[OF b], where urls = urls and rt = rt]
  from isl pc(3) have "\<exists>m. returned (parallelCalls rt urls arg) = Inl (Error m)"
    by (cases "returned ?r") auto
  moreover from slots pc(1)
  have "\<forall>a \<in> set (calls (parallelCalls rt urls arg)). slot a div ?b \<le> ?i"
    by auto
  ultimately show ?thesis using currentBatch_in_list[OF b p] by simp
qed

theorem parallelCalls_fail_fast_witness:
  "0 < batchSize (destructure (with_retries_batchSize 2 1)) \<and>
   1 < length [''/a'', ''/b'', ''/c''] \<and>
   isl (fetched (destructure (with_retries_batchSize 2 1)) rt_one_down 1 ([''/a'', ''/b'', ''/c''] ! 1)) \<and>
   returned (parallelCalls rt_one_down [''/a'', ''/b'', ''/c''] (with_retries_batchSize 2 1)) =
     Inl (Error ''fetch failed'') \<and>
   map slot (calls (parallelCalls rt_one_down [''/a'', ''/b'', ''/c''] (with_retries_batchSize 2 1))) =
     [0, 1, 1] \<and>
   list_all (\<lambda>a. slot a div nat (batchSize (destructure (with_retries_batchSize 2 1)))
                 \<le> 1 div nat (batchSize (destructure (with_retries_batchSize 2 1))))
     (calls (parallelCalls rt_one_down [''/a'', ''/b'', ''/c''] (with_retries_batchSize 2 1)))"
proof -
  let ?arg = "with_retries_batchSize 2 1"
  let ?urls = "[''/a'', ''/b'', ''/c'']"
  have b: "0 < batchSize (destructure ?arg)" by (simp add: run_eval)
  have p: "1 < length ?urls" by simp
  have f: "isl (fetched (destructure ?arg) rt_one_down 1 (?urls ! 1))"
    by (simp add: run_eval rt_one_down_def)
  have r: "returned (parallelCalls rt_one_down ?urls ?arg) = Inl (Error ''fetch failed'')"
    by (simp add: run_eval rt_one_down_def fetch_failed_def)
  have s: "map slot (calls (parallelCalls rt_one_down ?urls ?arg)) = [0, 1, 1]"
    by (simp add: run_eval rt_one_down_def)
  have "\<forall>a \<in> set (calls (parallelCalls rt_one_down ?urls ?arg)).
          slot a div nat (batchSize (destructure ?arg)) \<le> 1 div nat (batchSize (destructure ?arg))"
    by (rule parallelCalls_fail_fast[OF b p f, THEN conjunct2, THEN conjunct1])
  then have l: "list_all (\<lambda>a. slot a div nat (batchSize (destructure ?arg))
                 \<le> 1 div nat (batchSize (destructure ?arg)))
     (calls (parallelCalls rt_one_down ?urls ?arg))"
    by (simp only: list_all_iff)
  show ?thesis by (intro conjI) (rule b p f r s l)+
qed

text \<open>
  C4.  The claim fails on the program: a response of status 200 whose body does not parse ends
  the chain at once.  With \<open>retries = 3\<close>, a first response whose body is not JSON and a second
  request that would succeed, the program makes no second attempt and \<^verbatim>\<open>parallelCalls\<close>
  rejects with the parse error.  Line 148 returns the promise of \<^verbatim>\<open>response.json()\<close> without
  \<^verbatim>\<open>await\<close>, so that its rejection never reaches the \<^verbatim>\<open>catch\<close> clause that retries.
\<close>

theorem decode_failure_is_not_retried:
  "retries (destructure None) = 3 \<and>
   outcome (try_block (destructure None) rt_garbled_once 0 ''/a'' 1 0) = Returns (Inl bad_json) \<and>
   outcome (try_block (destructure None) rt_garbled_once 0 ''/a'' 2 15) =
     Returns (Inr (JString ''/a'')) \<and>
   map number (calls (parallelCalls rt_garbled_once [''/a''] None)) = [1] \<and>
   returned (parallelCalls rt_garbled_once [''/a''] None) =
     Inl (Error ''Unexpected end of JSON input'')"
proof -
  have 1: "retries (destructure None) = 3" by (simp add: run_eval)
  have 2: "outcome (try_block (destructure None) rt_garbled_once 0 ''/a'' 1 0) = Returns (Inl bad_json)"
    by (simp add: run_eval rt_garbled_once_def)
  have 3: "outcome (try_block (destructure None) rt_garbled_once 0 ''/a'' 2 15) =
     Returns (Inr (JString ''/a''))"
    by (simp add: run_eval rt_garbled_once_def)
  have 4: "map number (calls (parallelCalls rt_garbled_once [''/a''] None)) = [1]"
    by (simp add: run_eval rt_garbled_once_def)
  have 5: "returned (parallelCalls rt_garbled_once [''/a''] None) =
     Inl (Error ''Unexpected end of JSON input'')"
    by (simp add: run_eval rt_garbled_once_def bad_json_def)
  show ?thesis by (intro conjI) (rule 1 2 3 4 5)+
qed




text \<open>
  C6, as amended.  \<^verbatim>\<open>parallelCalls\<close> validates none of its three configuration fields: each
  is used as the caller supplies it, whatever its sign, and a field that the caller omits takes
  its default, \<open>timeout = 5000\<close>, \<open>retries = 3\<close>, \<open>batchSize = 5\<close>; a call behaves as the call
  that passes the resulting three values explicitly.
\<close>

theorem options_defaults_unvalidated:
  "destructure None = \<lparr>timeout = 5000, retries = 3, batchSize = 5\<rparr> \<and>
   destructure (Some opts) =
     \<lparr>timeout = (case opt_timeout opts of None \<Rightarrow> 5000 | Some ms \<Rightarrow> ms),
      retries = (case opt_retries opts of None \<Rightarrow> 3 | Some r \<Rightarrow> r),
      batchSize = (case opt_batchSize opts of None \<Rightarrow> 5 | Some b \<Rightarrow> b)\<rparr> \<and>
   parallelCalls rt urls arg =
     parallelCalls rt urls
       (Some \<lparr>opt_timeout = Some (timeout (destructure arg)),
              opt_retries = Some (retries (destructure arg)),
              opt_batchSize = Some (batchSize (destructure arg))\<rparr>)"
proof (intro conjI)
  show "destructure None = \<lparr>timeout = 5000, retries = 3, batchSize = 5\<rparr>"
    by (simp add: destructure_def or_default_def no_options_def)
  show "destructure (Some opts) =
     \<lparr>timeout = (case opt_timeout opts of None \<Rightarrow> 5000 | Some ms \<Rightarrow> ms),
      retries = (case opt_retries opts of None \<Rightarrow> 3 | Some r \<Rightarrow> r),
      batchSize = (case opt_batchSize opts of None \<Rightarrow> 5 | Some b \<Rightarrow> b)\<rparr>"
    by (simp add: destructure_def or_default_def)
  have "destructure (Some \<lparr>opt_timeout = Some (timeout (destructure arg)),
              opt_retries = Some (retries (destructure arg)),
              opt_batchSize = Some (batchSize (destructure arg))\<rparr>) = destructure arg"
    by (simp add: destructure_def or_default_def)
  then show "parallelCalls rt urls arg =
     parallelCalls rt urls
       (Some \<lparr>opt_timeout = Some (timeout (destructure arg)),
              opt_retries = Some (retries (destructure arg)),
              opt_batchSize = Some (batchSize (destructure arg))\<rparr>)"
    by (simp only: parallelCalls_def)
qed

theorem unvalidated_options_counterexample:
  "retries (destructure (with_retries 0)) = 0 \<and>
   returned (parallelCalls (rt_instant JString) [''/a''] (with_retries 0)) = Inr [JString ''/a''] \<and>
   map number (calls (parallelCalls (rt_instant JString) [''/a''] (with_retries 0))) = [1] \<and>
   timeout (destructure (with_timeout (- 1))) = - 1 \<and>
   returned (parallelCalls (rt_instant JString) [''/a''] (with_timeout (- 1))) = Inr [JString ''/a''] \<and>
   batchSize (destructure (with_batchSize (- 2))) = - 2 \<and>
   returned (parallelCalls (rt_instant JString) [''/a''] (with_batchSize (- 2))) = Inr [] \<and>
   calls (parallelCalls (rt_instant JString) [''/a''] (with_batchSize (- 2))) = []"
proof -
  have 1: "retries (destructure (with_retries 0)) = 0" by (simp add: run_eval)
  have 2: "returned (parallelCalls (rt_instant JString) [''/a''] (with_retries 0)) = Inr [JString ''/a'']"
    by (simp add: run_eval rt_instant_def)
  have 3: "map number (calls (parallelCalls (rt_instant JString) [''/a''] (with_retries 0))) = [1]"
    by (simp add: run_eval rt_instant_def)
  have 4: "timeout (destructure (with_timeout (- 1))) = - 1" by (simp add: run_eval)
  have 5: "returned (parallelCalls (rt_instant JString) [''/a''] (with_timeout (- 1))) = Inr [JString ''/a'']"
    by (simp add: run_eval rt_instant_def)
  have 6: "batchSize (destructure (with_batchSize (- 2))) = - 2" by (simp add: run_eval)
  have 7: "returned (parallelCalls (rt_instant JString) [''/a''] (with_batchSize (- 2))) = Inr []"
    by (simp add: run_eval rt_instant_def)
  have 8: "calls (parallelCalls (rt_instant JString) [''/a''] (with_batchSize (- 2))) = []"
    by (simp add: run_eval rt_instant_def)
  show ?thesis by (intro conjI) (rule 1 2 3 4 5 6 7 8)+
qed




text \<open>
  C8.  The claim fails on the program where the response arrives in time and its body does not.
  With \<open>timeout = 100\<close>, a response that arrives after 10 ms and a body that takes another 300 ms
  to read, the HTTP operation of the attempt has not completed after 100 ms; yet the timer is
  cleared at line 144, as soon as the response has arrived, so that nothing aborts the reading of
  the body: the attempt is over after 310 ms and succeeds, it is not cancelled and does not
  fail.  The documentation has \<open>timeout\<close> as the \<^emph>\<open>timeout for each request\<close> and the \<^emph>\<open>maximum time
  per request\<close>.  (Lemma \<open>attempt_timer\<close> gives what holds of the timer: when the response itself
  is late the timer fires, the fetch is aborted and the attempt throws the abort error of the
  runtime, which is retried like any exception; on every path the timer is released once,
  \<^verbatim>\<open>clearTimeout\<close> being called a second time, without effect, when a response arrived.)
\<close>

theorem body_read_outlasts_timeout:
  "timer_delay (timeout (destructure (with_timeout 100))) = 100 \<and>
   fetch rt_slow_body 0 ''/a'' 1 = responds 10 200 (Inr (JString ''/a'')) 300 \<and>
   map number (calls (parallelCalls rt_slow_body [''/a''] (with_timeout 100))) = [1] \<and>
   map started (calls (parallelCalls rt_slow_body [''/a''] (with_timeout 100))) = [0] \<and>
   map settled (calls (parallelCalls rt_slow_body [''/a''] (with_timeout 100))) = [310] \<and>
   map timer_ops (calls (parallelCalls rt_slow_body [''/a''] (with_timeout 100))) =
     [[ClearTimeout, ClearTimeout]] \<and>
   map outcome (calls (parallelCalls rt_slow_body [''/a''] (with_timeout 100))) =
     [Returns (Inr (JString ''/a''))] \<and>
   returned (parallelCalls rt_slow_body [''/a''] (with_timeout 100)) = Inr [JString ''/a''] \<and>
   finished (parallelCalls rt_slow_body [''/a''] (with_timeout 100)) = 310"
proof -
  let ?run = "parallelCalls rt_slow_body [''/a''] (with_timeout 100)"
  have 1: "timer_delay (timeout (destructure (with_timeout 100))) = 100" by (simp add: run_eval)
  have 2: "fetch rt_slow_body 0 ''/a'' 1 = responds 10 200 (Inr (JString ''/a'')) 300"
    by (simp add: rt_slow_body_def node_def)
  have 3: "map number (calls ?run) = [1]" by (simp add: run_eval rt_slow_body_def)
  have 4: "map started (calls ?run) = [0]" by (simp add: run_eval rt_slow_body_def)
  have 5: "map settled (calls ?run) = [310]" by (simp add: run_eval rt_slow_body_def)
  have 6: "map timer_ops (calls ?run) = [[ClearTimeout, ClearTimeout]]"
    by (simp add: run_eval rt_slow_body_def)
  have 7: "map outcome (calls ?run) = [Returns (Inr (JString ''/a''))]"
    by (simp add: run_eval rt_slow_body_def)
  have 8: "returned ?run = Inr [JString ''/a'']" by (simp add: run_eval rt_slow_body_def)
  have 9: "finished ?run = 310" by (simp add: run_eval rt_slow_body_def)
  show ?thesis by (intro conjI) (rule 1 2 3 4 5 6 7 8 9)+
qed

text \<open>
  C9.  At every instant of every run of \<^verbatim>\<open>parallelCalls\<close> with a positive batch size, the
  number of fetch attempts under way is at most \<open>batchSize\<close>; an attempt for a position of a
  later batch starts only after every attempt for the positions of an earlier batch has settled;
  and of two attempts for the same position, the later one starts only after the earlier one has
  settled.
\<close>

theorem parallelCalls_concurrency_bound:
  assumes b: "0 < batchSize (destructure arg)"
  shows "(\<forall>t. outstanding (calls (parallelCalls rt urls arg)) t \<le> nat (batchSize (destructure arg))) \<and>
         (\<forall>a \<in> set (calls (parallelCalls rt urls arg)). \<forall>a' \<in> set (calls (parallelCalls rt urls arg)).
            slot a div nat (batchSize (destructure arg)) < slot a' div nat (batchSize (destructure arg)) \<longrightarrow>
            settled a \<le> started a') \<and>
         (\<forall>a \<in> set (calls (parallelCalls rt urls arg)). \<forall>a' \<in> set (calls (parallelCalls rt urls arg)).
            slot a = slot a' \<and> number a < number a' \<longrightarrow> settled a \<le> started a')"
proof -
  let ?cfg = "destructure arg"
  let ?c = "nat \<lceil>real (length urls) / real_of_int (batchSize ?cfg)\<rceil>"
  note pc = parallelCalls_Some(1)[OF array_length_pos[OF b], where urls = urls and rt = rt]
  have "outstanding (calls (parallelCalls rt urls arg)) t \<le> nat (batchSize ?cfg)" for t
    unfolding pc by (rule run_outstanding[OF b])
  moreover have "settled a \<le> started a'"
    if "a \<in> set (calls (parallelCalls rt urls arg))" "a' \<in> set (calls (parallelCalls rt urls arg))"
      "slot a div nat (batchSize ?cfg) < slot a' div nat (batchSize ?cfg)" for a a'
    using that unfolding pc by (intro run_batch_order[OF b, of "[0..<?c]"]) simp_all
  moreover have "settled a \<le> started a'"
    if "a \<in> set (calls (parallelCalls rt urls arg))" "a' \<in> set (calls (parallelCalls rt urls arg))"
      "slot a = slot a'" "number a < number a'" for a a'
    using that unfolding pc by (intro run_chain_order[OF b, of "[0..<?c]"]) simp_all
  ultimately show ?thesis by blast
qed

theorem parallelCalls_concurrency_bound_witness:
  "0 < batchSize (destructure (with_batchSize 2)) \<and>
   outstanding (calls (parallelCalls rt_flaky [''/a'', ''/b'', ''/c''] (with_batchSize 2))) 5 = 2 \<and>
   outstanding (calls (parallelCalls rt_flaky [''/a'', ''/b'', ''/c''] (with_batchSize 2))) 5
     \<le> nat (batchSize (destructure (with_batchSize 2)))"
proof -
  have b: "0 < batchSize (destructure (with_batchSize 2))" by (simp add: run_eval)
  have o: "outstanding (calls (parallelCalls rt_flaky [''/a'', ''/b'', ''/c''] (with_batchSize 2))) 5 = 2"
    by (simp add: run_eval rt_flaky_def)
  have l: "outstanding (calls (parallelCalls rt_flaky [''/a'', ''/b'', ''/c''] (with_batchSize 2))) 5
     \<le> nat (batchSize (destructure (with_batchSize 2)))"
    by (rule parallelCalls_concurrency_bound[OF b, THEN conjunct1, THEN spec])
  show ?thesis by (intro conjI) (rule b o l)+
qed

text \<open>
  C10.  For the empty URL list and every configuration whose batch size is not zero,
  \<^verbatim>\<open>parallelCalls\<close> resolves with the empty sequence, starts no batch and makes no fetch
  attempt: the loop array has \<open>\<lceil>0 / batchSize\<rceil> = 0\<close> entries.
\<close>

theorem parallelCalls_empty:
  assumes "batchSize (destructure arg) \<noteq> 0"
  shows "array_length (length ([] :: string list)) (batchSize (destructure arg)) = Some 0 \<and>
         returned (parallelCalls rt [] arg) = Inr [] \<and>
         batches (parallelCalls rt [] arg) = [] \<and>
         calls (parallelCalls rt [] arg) = []"
proof -
  have len: "array_length (length ([] :: string list)) (batchSize (destructure arg)) = Some 0"
    using assms by (simp add: array_length_empty)
  show ?thesis
    using len parallelCalls_Some[OF len, of rt] by simp
qed

theorem parallelCalls_empty_witness:
  "batchSize (destructure None) \<noteq> 0 \<and>
   array_length (length ([] :: string list)) (batchSize (destructure None)) = Some 0 \<and>
   returned (parallelCalls rt_down [] None) = Inr [] \<and>
   batches (parallelCalls rt_down [] None) = [] \<and>
   calls (parallelCalls rt_down [] None) = []"
proof -
  have h: "batchSize (destructure None) \<noteq> 0"
    by (simp add: destructure_def no_options_def or_default_def)
  show ?thesis using h parallelCalls_empty[OF h, of rt_down] by simp
qed

end
